theory Spec2Isabelle
  imports Main
begin

section \<open>The data model of treap.go\<close>

text \<open>
  A run-time panic of the Go program. All three are nil dereferences for the Go
  run time; the constructor records which pointer was nil:
  a \<^verbatim>\<open>*Node\<close>, the \<^verbatim>\<open>*Handle\<close> of the treap, or a comparator (a nil func value).
\<close>

datatype panic = NilNode | NilHandle | NilComparator

text \<open>The value built by \<^verbatim>\<open>errors.New\<close>.\<close>

datatype error = ErrorString string

text \<open>
  \<^verbatim>\<open>type Node struct { Weight int; Key, Item interface{}; Left, Right *Node }\<close>.
  A \<^verbatim>\<open>*Node\<close> is a value of this type, \<open>nil\<close> being the nil pointer. Keys are
  values of any type \<open>'k\<close>; an item is an \<^verbatim>\<open>interface{}\<close> that may itself be nil,
  so it is a \<open>'v option\<close> with \<open>None\<close> for the nil interface value.
\<close>

datatype ('k, 'v) Node =
    nil
  | Node (Weight: int) (Key: 'k) (Item: "'v option")
         (Left: "('k, 'v) Node") (Right: "('k, 'v) Node")

text \<open>
  Modelled from the spec: the type \<^verbatim>\<open>Comparator\<close> is used by treap.go and declared
  nowhere in it. The spec gives it as a function of two values returning an integer
  (\<^verbatim>\<open>compareKeys(a, b) -> {-1, 0, 1}\<close>); a Go func value may be nil, which is \<open>None\<close>.
\<close>

type_synonym 'a Comparator = "('a \<Rightarrow> 'a \<Rightarrow> int) option"

text \<open>\<^verbatim>\<open>type Handle struct { CompareWeights, CompareKeys Comparator }\<close>\<close>

record 'k Handle =
  CompareWeights :: "int Comparator"
  CompareKeys :: "'k Comparator"

text \<open>\<^verbatim>\<open>type Treap struct { handle *Handle; root *Node }\<close>\<close>

record ('k, 'v) Treap =
  handle :: "'k Handle option"
  root :: "('k, 'v) Node"


section \<open>The operations of treap.go\<close>

text \<open>\<^verbatim>\<open>NewTreap\<close>: the only check is that the handle pointer is not nil.\<close>

definition NewTreap :: "'k Handle option \<Rightarrow> error + ('k, 'v) Treap" where
  "NewTreap h =
     (if h = None then Inl (ErrorString ''comparator is nil'')
      else Inr \<lparr>handle = h, root = nil\<rparr>)"

text \<open>
  The two call expressions \<^verbatim>\<open>t.handle.CompareKeys(a, b)\<close> and
  \<^verbatim>\<open>t.handle.CompareWeights(a, b)\<close>: the handle is dereferenced, then the func value
  is called.
\<close>

definition callCompareKeys :: "('k, 'v) Treap \<Rightarrow> 'k \<Rightarrow> 'k \<Rightarrow> panic + int" where
  "callCompareKeys t a b =
     (case handle t of
        None \<Rightarrow> Inl NilHandle
      | Some h \<Rightarrow> (case CompareKeys h of
                    None \<Rightarrow> Inl NilComparator
                  | Some f \<Rightarrow> Inr (f a b)))"

definition callCompareWeights :: "('k, 'v) Treap \<Rightarrow> int \<Rightarrow> int \<Rightarrow> panic + int" where
  "callCompareWeights t a b =
     (case handle t of
        None \<Rightarrow> Inl NilHandle
      | Some h \<Rightarrow> (case CompareWeights h of
                    None \<Rightarrow> Inl NilComparator
                  | Some f \<Rightarrow> Inr (f a b)))"

text \<open>\<^verbatim>\<open>GetNode\<close>: the switch is on the sign of the comparator's result.\<close>

fun GetNode :: "('k, 'v) Treap \<Rightarrow> ('k, 'v) Node \<Rightarrow> 'k \<Rightarrow> panic + (('k, 'v) Node \<times> bool)" where
  "GetNode t nil key = Inr (nil, False)"
| "GetNode t (Node nw nk ni nl nr) key =
     (case callCompareKeys t key nk of
        Inl e \<Rightarrow> Inl e
      | Inr c \<Rightarrow>
          if c < 0 then GetNode t nl key
          else if c > 0 then GetNode t nr key
          else Inr (Node nw nk ni nl nr, True))"

text \<open>\<^verbatim>\<open>Get\<close>: the item of the node found; the zero values \<open>(nil, false)\<close> otherwise.\<close>

definition Get :: "('k, 'v) Treap \<Rightarrow> ('k, 'v) Node \<Rightarrow> 'k \<Rightarrow> panic + ('v option \<times> bool)" where
  "Get t n key =
     (case GetNode t n key of
        Inl e \<Rightarrow> Inl e
      | Inr (m, found) \<Rightarrow>
          if found then (case m of nil \<Rightarrow> Inl NilNode | Node mw mk mi ml mr \<Rightarrow> Inr (mi, True))
          else Inr (None, False))"

text \<open>
  \<^verbatim>\<open>Min\<close> and \<open>Max\<close> read the treap's own \<open>root\<close> field. \<open>MinFrom n\<close> is the
  code from \<^verbatim>\<open>if n == nil\<close> on: the nil test, then the loop
  \<^verbatim>\<open>for n.Left != nil { n = n.Left }\<close>, then \<^verbatim>\<open>return n.Item\<close>.
\<close>

fun MinFrom :: "('k, 'v) Node \<Rightarrow> 'v option" where
  "MinFrom nil = None"
| "MinFrom (Node nw nk ni nl nr) = (if nl \<noteq> nil then MinFrom nl else ni)"

fun MaxFrom :: "('k, 'v) Node \<Rightarrow> 'v option" where
  "MaxFrom nil = None"
| "MaxFrom (Node nw nk ni nl nr) = (if nr \<noteq> nil then MaxFrom nr else ni)"

definition Min :: "('k, 'v) Treap \<Rightarrow> 'v option" where
  "Min t = MinFrom (root t)"

definition Max :: "('k, 'v) Treap \<Rightarrow> 'v option" where
  "Max t = MaxFrom (root t)"

text \<open>
  The rotations dereference \<^verbatim>\<open>n\<close> and \<^verbatim>\<open>n.Left\<close> (\<^verbatim>\<open>n.Right\<close>) without a test.
\<close>

fun leftRotation :: "('k, 'v) Node \<Rightarrow> panic + ('k, 'v) Node" where
  "leftRotation (Node nw nk ni (Node lw lk li ll lr) nr) =
     Inr (Node lw lk li ll (Node nw nk ni lr nr))"
| "leftRotation n = Inl NilNode"

fun rightRotation :: "('k, 'v) Node \<Rightarrow> panic + ('k, 'v) Node" where
  "rightRotation (Node nw nk ni nl (Node rw rk ri rl rr)) =
     Inr (Node rw rk ri (Node nw nk ni nl rl) rr)"
| "rightRotation n = Inl NilNode"

text \<open>
  The end of \<^verbatim>\<open>upsert\<close> (the \<^verbatim>\<open>if ... else if ...\<close> on the weights and the final
  return), on the rebuilt node \<open>res\<close>. \<^verbatim>\<open>&&\<close> is short-circuit: the comparator is
  called only for a child that is there.
\<close>

definition rotateRight :: "('k, 'v) Treap \<Rightarrow> ('k, 'v) Node \<Rightarrow> panic + ('k, 'v) Node" where
  "rotateRight t res =
     (case res of
        nil \<Rightarrow> Inl NilNode
      | Node w k i l r \<Rightarrow>
          (case r of
             nil \<Rightarrow> Inr res
           | Node rw rk ri rl rr \<Rightarrow>
               (case callCompareWeights t rw w of
                  Inl e \<Rightarrow> Inl e
                | Inr c \<Rightarrow> if c < 0 then rightRotation res else Inr res)))"

definition rebalance :: "('k, 'v) Treap \<Rightarrow> ('k, 'v) Node \<Rightarrow> panic + ('k, 'v) Node" where
  "rebalance t res =
     (case res of
        nil \<Rightarrow> Inl NilNode
      | Node w k i l r \<Rightarrow>
          (case l of
             nil \<Rightarrow> rotateRight t res
           | Node lw lk li ll lr \<Rightarrow>
               (case callCompareWeights t lw w of
                  Inl e \<Rightarrow> Inl e
                | Inr c \<Rightarrow> if c < 0 then leftRotation res else rotateRight t res)))"

definition finish :: "panic + ('k, 'v) Node \<Rightarrow> bool \<Rightarrow> panic + (('k, 'v) Node \<times> bool)" where
  "finish r created = (case r of Inl e \<Rightarrow> Inl e | Inr res \<Rightarrow> Inr (res, created))"

text \<open>
  \<^verbatim>\<open>upsert\<close>. The switch is on the values \<open>-1\<close> and \<open>1\<close> of the comparator; every
  other value takes the default branch. The named results start as \<open>(nil, false)\<close>.
\<close>

fun upsert :: "('k, 'v) Treap \<Rightarrow> ('k, 'v) Node \<Rightarrow> 'k \<Rightarrow> 'v option \<Rightarrow> int \<Rightarrow> bool \<Rightarrow> bool \<Rightarrow>
    (('k, 'v) Node \<Rightarrow> bool) option \<Rightarrow> panic + (('k, 'v) Node \<times> bool)" where
  "upsert t nil k v w create update fn =
     (if create then Inr (Node w k v nil nil, True) else Inr (nil, False))"
| "upsert t (Node nw nk ni nl nr) k v w create update fn =
     (case callCompareKeys t k nk of
        Inl e \<Rightarrow> Inl e
      | Inr c \<Rightarrow>
          if c = -1 then
            (case upsert t nl k v w create update fn of
               Inl e \<Rightarrow> Inl e
             | Inr (res, created) \<Rightarrow>
                 if res = nil then Inr (res, created)
                 else finish (rebalance t (Node nw nk ni res nr)) created)
          else if c = 1 then
            (case upsert t nr k v w create update fn of
               Inl e \<Rightarrow> Inl e
             | Inr (res, created) \<Rightarrow>
                 if res = nil then Inr (res, created)
                 else finish (rebalance t (Node nw nk ni nl res)) created)
          else if \<not> update then Inr (nil, False)
          else if fn \<noteq> None \<and> \<not> (the fn) (Node nw nk ni nl nr)
            then Inr (Node nw nk ni nl nr, False)
          else finish (rebalance t (Node w nk (if create then v else ni) nl nr)) False)"

definition Insert :: "('k, 'v) Treap \<Rightarrow> ('k, 'v) Node \<Rightarrow> 'k \<Rightarrow> 'v option \<Rightarrow> int \<Rightarrow>
    panic + (('k, 'v) Node \<times> bool)" where
  "Insert t n key val weight = upsert t n key val weight True False None"


section \<open>Properties of trees and comparators\<close>

text \<open>
  The comparator contract for keys: only the values \<open>-1\<close>, \<open>0\<close> and \<open>1\<close>, \<open>0\<close>
  exactly for the same key, \<open>-1\<close> one way exactly when \<open>1\<close> the other way, and
  transitivity.
\<close>

definition strict_total_order :: "('k \<Rightarrow> 'k \<Rightarrow> int) \<Rightarrow> bool" where
  "strict_total_order ck =
     ((\<forall>a b. ck a b = -1 \<or> ck a b = 0 \<or> ck a b = 1) \<and>
      (\<forall>a b. (ck a b = 0) = (a = b)) \<and>
      (\<forall>a b. (ck a b = -1) = (ck b a = 1)) \<and>
      (\<forall>a b c. ck a b = -1 \<longrightarrow> ck b c = -1 \<longrightarrow> ck a c = -1))"

text \<open>
  The contract for weights, as far as balance needs it: of two weights one does not
  outrank the other, and "does not outrank" is transitive. Ties are allowed.
\<close>

definition weight_order :: "(int \<Rightarrow> int \<Rightarrow> int) \<Rightarrow> bool" where
  "weight_order cw =
     ((\<forall>a b. cw a b < 0 \<longrightarrow> 0 \<le> cw b a) \<and>
      (\<forall>a b c. 0 \<le> cw a b \<longrightarrow> 0 \<le> cw b c \<longrightarrow> 0 \<le> cw a c))"

text \<open>The usual three-way comparison of integers, used for concrete inputs.\<close>

definition cmpInt :: "int \<Rightarrow> int \<Rightarrow> int" where
  "cmpInt a b = (if a < b then -1 else if b < a then 1 else 0)"

text \<open>A treap whose handle is there and holds the two comparators \<open>ck\<close> and \<open>cw\<close>.\<close>

definition configured :: "('k, 'v) Treap \<Rightarrow> ('k \<Rightarrow> 'k \<Rightarrow> int) \<Rightarrow> (int \<Rightarrow> int \<Rightarrow> int) \<Rightarrow> bool" where
  "configured t ck cw =
     (case handle t of
        None \<Rightarrow> False
      | Some h \<Rightarrow> CompareKeys h = Some ck \<and> CompareWeights h = Some cw)"

definition mkTreap :: "('k \<Rightarrow> 'k \<Rightarrow> int) \<Rightarrow> (int \<Rightarrow> int \<Rightarrow> int) \<Rightarrow> ('k, 'v) Node \<Rightarrow> ('k, 'v) Treap" where
  "mkTreap ck cw n = \<lparr>handle = Some \<lparr>CompareWeights = Some cw, CompareKeys = Some ck\<rparr>, root = n\<rparr>"

text \<open>In-order traversal: the (key, item) pairs, and the keys alone.\<close>

fun entries :: "('k, 'v) Node \<Rightarrow> ('k \<times> 'v option) list" where
  "entries nil = []"
| "entries (Node w k i l r) = entries l @ (k, i) # entries r"

definition inorder :: "('k, 'v) Node \<Rightarrow> 'k list" where
  "inorder n = map fst (entries n)"

fun keys :: "('k, 'v) Node \<Rightarrow> 'k set" where
  "keys nil = {}"
| "keys (Node w k i l r) = keys l \<union> {k} \<union> keys r"

text \<open>
  The search-tree invariant: at every node the keys on the left compare less than the
  node's key and the keys on the right compare greater.
\<close>

fun bst :: "('k \<Rightarrow> 'k \<Rightarrow> int) \<Rightarrow> ('k, 'v) Node \<Rightarrow> bool" where
  "bst ck nil = True"
| "bst ck (Node w k i l r) =
     (bst ck l \<and> bst ck r \<and> (\<forall>x \<in> keys l. ck x k < 0) \<and> (\<forall>x \<in> keys r. ck x k > 0))"

text \<open>
  The heap invariant: no child is ranked strictly before its parent, that is
  \<open>compareWeights(c.Weight, n.Weight) >= 0\<close> for every child \<open>c\<close> of every node \<open>n\<close>.
\<close>

fun childOk :: "(int \<Rightarrow> int \<Rightarrow> int) \<Rightarrow> ('k, 'v) Node \<Rightarrow> int \<Rightarrow> bool" where
  "childOk cw nil w = True"
| "childOk cw (Node cwt ck ci cl cr) w = (0 \<le> cw cwt w)"

fun heap :: "(int \<Rightarrow> int \<Rightarrow> int) \<Rightarrow> ('k, 'v) Node \<Rightarrow> bool" where
  "heap cw nil = True"
| "heap cw (Node w k i l r) = (heap cw l \<and> heap cw r \<and> childOk cw l w \<and> childOk cw r w)"

fun weights :: "('k, 'v) Node \<Rightarrow> int set" where
  "weights nil = {}"
| "weights (Node w k i l r) = weights l \<union> {w} \<union> weights r"

text \<open>
  Where an absent key goes in an in-order list: before the first entry whose key it
  compares \<open>-1\<close> to.
\<close>

fun ins :: "('k \<Rightarrow> 'k \<Rightarrow> int) \<Rightarrow> 'k \<Rightarrow> 'v option \<Rightarrow> ('k \<times> 'v option) list \<Rightarrow> ('k \<times> 'v option) list" where
  "ins ck k v [] = [(k, v)]"
| "ins ck k v ((a, i) # es) =
     (if ck k a = -1 then (k, v) # (a, i) # es else (a, i) # ins ck k v es)"

text \<open>
  The trees a caller can get from the empty tree with \<open>Insert\<close> alone, whichever
  returned roots it goes on with.
\<close>

inductive reachable :: "('k, 'v) Treap \<Rightarrow> ('k, 'v) Node \<Rightarrow> bool" for t :: "('k, 'v) Treap" where
  reachable_nil: "reachable t nil"
| reachable_Insert: "reachable t n \<Longrightarrow> Insert t n k v w = Inr (n', created) \<Longrightarrow> reachable t n'"

text \<open>A treap over integer keys, for concrete inputs.\<close>

definition exTreap :: "(int, string) Treap" where
  "exTreap = mkTreap cmpInt cmpInt nil"

text \<open>
  A comparator by sign only, as a subtraction-style comparison gives: its values for
  distinct keys are \<open>-2\<close> and \<open>2\<close>.
\<close>

definition cmpWide :: "int \<Rightarrow> int \<Rightarrow> int" where
  "cmpWide a b = (if a < b then -2 else if b < a then 2 else 0)"

definition wideTreap :: "(int, string) Treap" where
  "wideTreap = mkTreap cmpWide cmpInt nil"

text \<open>No weight in \<open>n\<close> is ranked strictly before \<open>b\<close>.\<close>

definition bounded :: "(int \<Rightarrow> int \<Rightarrow> int) \<Rightarrow> int \<Rightarrow> ('k, 'v) Node \<Rightarrow> bool" where
  "bounded cw b n = (\<forall>x \<in> weights n. 0 \<le> cw x b)"

text \<open>The same for the two subtrees of the root of \<open>n\<close>, the root itself left out.\<close>

fun bounded_below_root :: "(int \<Rightarrow> int \<Rightarrow> int) \<Rightarrow> int \<Rightarrow> ('k, 'v) Node \<Rightarrow> bool" where
  "bounded_below_root cw b nil = True"
| "bounded_below_root cw b (Node w k i l r) = (bounded cw b l \<and> bounded cw b r)"

text \<open>
  A caller that builds a tree: it inserts the (key, item, weight) triples one after
  the other, each time going on with the root that \<open>Insert\<close> returned.
\<close>

fun build :: "('k, 'v) Treap \<Rightarrow> ('k, 'v) Node \<Rightarrow> ('k \<times> 'v option \<times> int) list \<Rightarrow>
    panic + ('k, 'v) Node" where
  "build t n [] = Inr n"
| "build t n ((k, v, w) # ops) =
     (case Insert t n k v w of
        Inl e \<Rightarrow> Inl e
      | Inr (n', created) \<Rightarrow> build t n' ops)"

text \<open>A handle value with no comparator set, \<^verbatim>\<open>&Handle{}\<close>.\<close>

definition emptyHandle :: "int Handle" where
  "emptyHandle = \<lparr>CompareWeights = None, CompareKeys = None\<rparr>"


section \<open>The same operations on an explicit store\<close>

text \<open>
  To speak about allocation and sharing, the nodes are put in a store: a
  \<^verbatim>\<open>*Node\<close> is \<open>None\<close> (nil) or \<open>Some a\<close>, the address of a cell, and the cell at
  address \<open>a\<close> is the \<open>a\<close>-th element of the store. \<^verbatim>\<open>&Node{...}\<close> appends a cell.
\<close>

record ('k, 'v) cell =
  cellWeight :: int
  cellKey :: 'k
  cellItem :: "'v option"
  cellLeft :: "nat option"
  cellRight :: "nat option"

type_synonym ('k, 'v) store = "('k, 'v) cell list"

text \<open>
  A call on the store returns \<open>Some (Inr x)\<close>, panics with \<open>Some (Inl e)\<close>, or
  has no result, \<open>None\<close>: it runs forever (on a cyclic chain of nodes), or reads an
  address outside the store, which a Go heap does not contain.
\<close>

type_synonym 'a outcome = "(panic + 'a) option"

definition alloc :: "('k, 'v) store \<Rightarrow> ('k, 'v) cell \<Rightarrow> ('k, 'v) store \<times> nat option" where
  "alloc s c = (s @ [c], Some (length s))"

definition deref :: "('k, 'v) store \<Rightarrow> nat option \<Rightarrow> ('k, 'v) cell outcome" where
  "deref s p =
     (case p of
        None \<Rightarrow> Some (Inl NilNode)
      | Some a \<Rightarrow> if a < length s then Some (Inr (s ! a)) else None)"

definition andThen :: "'a outcome \<Rightarrow> ('a \<Rightarrow> 'b outcome) \<Rightarrow> 'b outcome" where
  "andThen m f =
     (case m of
        None \<Rightarrow> None
      | Some (Inl e) \<Rightarrow> Some (Inl e)
      | Some (Inr x) \<Rightarrow> f x)"

text \<open>\<^verbatim>\<open>GetNode\<close> on the store.\<close>

partial_function (option) GetNode_s ::
  "('k, 'v) Treap \<Rightarrow> ('k, 'v) store \<Rightarrow> nat option \<Rightarrow> 'k \<Rightarrow> (nat option \<times> bool) outcome" where
  "GetNode_s t s n key =
     (if n = None then Some (Inr (None, False))
      else case deref s n of
        None \<Rightarrow> None
      | Some (Inl e) \<Rightarrow> Some (Inl e)
      | Some (Inr c) \<Rightarrow>
          (case callCompareKeys t key (cellKey c) of
             Inl e \<Rightarrow> Some (Inl e)
           | Inr c3 \<Rightarrow>
               if c3 < 0 then GetNode_s t s (cellLeft c) key
               else if c3 > 0 then GetNode_s t s (cellRight c) key
               else Some (Inr (n, True))))"


text \<open>\<^verbatim>\<open>Get\<close> on the store: \<^verbatim>\<open>v = n.Item\<close> for the node found.\<close>

definition Get_s ::
  "('k, 'v) Treap \<Rightarrow> ('k, 'v) store \<Rightarrow> nat option \<Rightarrow> 'k \<Rightarrow> ('v option \<times> bool) outcome" where
  "Get_s t s n key =
     andThen (GetNode_s t s n key) (\<lambda>(m, found).
       if found then andThen (deref s m) (\<lambda>c. Some (Inr (cellItem c, True)))
       else Some (Inr (None, False)))"

text \<open>
  The rotations on the store: two composite literals, hence two new cells; every other
  pointer in them is copied from the cells of \<open>n\<close> and of its child.
\<close>

definition leftRotation_s :: "('k, 'v) store \<Rightarrow> nat option \<Rightarrow> (('k, 'v) store \<times> nat option) outcome" where
  "leftRotation_s s n =
     andThen (deref s n) (\<lambda>c.
     andThen (deref s (cellLeft c)) (\<lambda>lc.
       let (s1, inner) = alloc s \<lparr>cellWeight = cellWeight c, cellKey = cellKey c,
                                  cellItem = cellItem c, cellLeft = cellRight lc,
                                  cellRight = cellRight c\<rparr>;
           (s2, outer) = alloc s1 \<lparr>cellWeight = cellWeight lc, cellKey = cellKey lc,
                                   cellItem = cellItem lc, cellLeft = cellLeft lc,
                                   cellRight = inner\<rparr>
       in Some (Inr (s2, outer))))"

definition rightRotation_s :: "('k, 'v) store \<Rightarrow> nat option \<Rightarrow> (('k, 'v) store \<times> nat option) outcome" where
  "rightRotation_s s n =
     andThen (deref s n) (\<lambda>c.
     andThen (deref s (cellRight c)) (\<lambda>rc.
       let (s1, inner) = alloc s \<lparr>cellWeight = cellWeight c, cellKey = cellKey c,
                                  cellItem = cellItem c, cellLeft = cellLeft c,
                                  cellRight = cellLeft rc\<rparr>;
           (s2, outer) = alloc s1 \<lparr>cellWeight = cellWeight rc, cellKey = cellKey rc,
                                   cellItem = cellItem rc, cellLeft = inner,
                                   cellRight = cellRight rc\<rparr>
       in Some (Inr (s2, outer))))"

text \<open>The end of \<^verbatim>\<open>upsert\<close> on the store.\<close>

definition rotateRight_s ::
  "('k, 'v) Treap \<Rightarrow> ('k, 'v) store \<Rightarrow> nat option \<Rightarrow> (('k, 'v) store \<times> nat option) outcome" where
  "rotateRight_s t s res =
     andThen (deref s res) (\<lambda>c.
       if cellRight c \<noteq> None then
         andThen (deref s (cellRight c)) (\<lambda>rc.
           case callCompareWeights t (cellWeight rc) (cellWeight c) of
             Inl e \<Rightarrow> Some (Inl e)
           | Inr c3 \<Rightarrow> if c3 < 0 then rightRotation_s s res else Some (Inr (s, res)))
       else Some (Inr (s, res)))"

definition rebalance_s ::
  "('k, 'v) Treap \<Rightarrow> ('k, 'v) store \<Rightarrow> nat option \<Rightarrow> (('k, 'v) store \<times> nat option) outcome" where
  "rebalance_s t s res =
     andThen (deref s res) (\<lambda>c.
       if cellLeft c \<noteq> None then
         andThen (deref s (cellLeft c)) (\<lambda>lc.
           case callCompareWeights t (cellWeight lc) (cellWeight c) of
             Inl e \<Rightarrow> Some (Inl e)
           | Inr c3 \<Rightarrow> if c3 < 0 then leftRotation_s s res else rotateRight_s t s res)
       else rotateRight_s t s res)"

definition finish_s ::
  "(('k, 'v) store \<times> nat option) outcome \<Rightarrow> bool \<Rightarrow> (('k, 'v) store \<times> nat option \<times> bool) outcome" where
  "finish_s r created = andThen r (\<lambda>(s, res). Some (Inr (s, res, created)))"

text \<open>The assignment \<^verbatim>\<open>res.Item = v\<close>, the one write to a node after its literal.\<close>

definition setItem :: "('k, 'v) store \<Rightarrow> nat option \<Rightarrow> 'v option \<Rightarrow> ('k, 'v) store outcome" where
  "setItem s p v = andThen (deref s p) (\<lambda>c. Some (Inr (s[the p := c\<lparr>cellItem := v\<rparr>])))"

text \<open>
  \<^verbatim>\<open>upsert\<close> on the store. The fields of \<open>n\<close> that the rebuilt node copies are read
  after the recursive call, from the store it returned.
\<close>

partial_function (option) upsert_s ::
  "('k, 'v) Treap \<Rightarrow> ('k, 'v) store \<Rightarrow> nat option \<Rightarrow> 'k \<Rightarrow> 'v option \<Rightarrow> int \<Rightarrow> bool \<Rightarrow> bool \<Rightarrow>
   (('k, 'v) store \<Rightarrow> nat option \<Rightarrow> bool) option \<Rightarrow>
   (('k, 'v) store \<times> nat option \<times> bool) outcome" where
  "upsert_s t s n k v w create update fn =
     (if n = None then
        (if create then
           (let (s1, res) = alloc s \<lparr>cellWeight = w, cellKey = k, cellItem = v,
                                     cellLeft = None, cellRight = None\<rparr>
            in Some (Inr (s1, res, True)))
         else Some (Inr (s, None, False)))
      else case deref s n of
        None \<Rightarrow> None
      | Some (Inl e) \<Rightarrow> Some (Inl e)
      | Some (Inr c) \<Rightarrow>
          (case callCompareKeys t k (cellKey c) of
             Inl e \<Rightarrow> Some (Inl e)
           | Inr c3 \<Rightarrow>
               if c3 = -1 then
                 Option.bind (upsert_s t s (cellLeft c) k v w create update fn) (\<lambda>r.
                   case r of
                     Inl e \<Rightarrow> Some (Inl e)
                   | Inr (s1, res, created) \<Rightarrow>
                       if res = None then Some (Inr (s1, res, created))
                       else andThen (deref s1 n) (\<lambda>c1.
                         let (s2, res2) = alloc s1 \<lparr>cellWeight = cellWeight c1, cellKey = cellKey c1,
                                                    cellItem = cellItem c1, cellLeft = res,
                                                    cellRight = cellRight c1\<rparr>
                         in finish_s (rebalance_s t s2 res2) created))
               else if c3 = 1 then
                 Option.bind (upsert_s t s (cellRight c) k v w create update fn) (\<lambda>r.
                   case r of
                     Inl e \<Rightarrow> Some (Inl e)
                   | Inr (s1, res, created) \<Rightarrow>
                       if res = None then Some (Inr (s1, res, created))
                       else andThen (deref s1 n) (\<lambda>c1.
                         let (s2, res2) = alloc s1 \<lparr>cellWeight = cellWeight c1, cellKey = cellKey c1,
                                                    cellItem = cellItem c1, cellLeft = cellLeft c1,
                                                    cellRight = res\<rparr>
                         in finish_s (rebalance_s t s2 res2) created))
               else if \<not> update then Some (Inr (s, None, False))
               else if fn \<noteq> None \<and> \<not> (the fn) s n then Some (Inr (s, n, False))
               else
                 (let (s1, res) = alloc s \<lparr>cellWeight = w, cellKey = cellKey c,
                                           cellItem = cellItem c, cellLeft = cellLeft c,
                                           cellRight = cellRight c\<rparr>
                  in andThen (if create then setItem s1 res v else Some (Inr s1)) (\<lambda>s2.
                       finish_s (rebalance_s t s2 res) False))))"

definition Insert_s ::
  "('k, 'v) Treap \<Rightarrow> ('k, 'v) store \<Rightarrow> nat option \<Rightarrow> 'k \<Rightarrow> 'v option \<Rightarrow> int \<Rightarrow>
   (('k, 'v) store \<times> nat option \<times> bool) outcome" where
  "Insert_s t s n key val weight = upsert_s t s n key val weight True False None"

text \<open>
  The pointer \<open>p\<close> in the store \<open>s\<close> is the root of the tree \<open>tr\<close>: the cells
  reached from \<open>p\<close> hold the fields of the nodes of \<open>tr\<close>. Two subtrees may be one
  and the same cells.
\<close>

fun repr :: "('k, 'v) store \<Rightarrow> nat option \<Rightarrow> ('k, 'v) Node \<Rightarrow> bool" where
  "repr s p nil = (p = None)"
| "repr s p (Node w k i l r) =
     (case p of
        None \<Rightarrow> False
      | Some a \<Rightarrow> a < length s \<and> cellWeight (s ! a) = w \<and> cellKey (s ! a) = k \<and>
                 cellItem (s ! a) = i \<and> repr s (cellLeft (s ! a)) l \<and>
                 repr s (cellRight (s ! a)) r)"


text \<open>Two stores for concrete inputs: one node, and a node with a left child.\<close>

definition exStore1 :: "(int, string) store" where
  "exStore1 = [\<lparr>cellWeight = 7, cellKey = 5, cellItem = Some ''five'', cellLeft = None,
                cellRight = None\<rparr>]"

definition exStore2 :: "(int, string) store" where
  "exStore2 = [\<lparr>cellWeight = 2, cellKey = 3, cellItem = Some ''three'', cellLeft = None,
                cellRight = None\<rparr>,
               \<lparr>cellWeight = 7, cellKey = 5, cellItem = Some ''five'', cellLeft = Some 0,
                cellRight = None\<rparr>]"

definition exStore3 :: "(int, string) store" where
  "exStore3 = [\<lparr>cellWeight = 2, cellKey = 8, cellItem = Some ''eight'', cellLeft = None,
                cellRight = None\<rparr>,
               \<lparr>cellWeight = 7, cellKey = 5, cellItem = Some ''five'', cellLeft = None,
                cellRight = Some 0\<rparr>]"


section \<open>Basic facts\<close>

lemma configured_keys [simp]: "configured t ck cw \<Longrightarrow> callCompareKeys t a b = Inr (ck a b)"
  by (auto simp: configured_def callCompareKeys_def split: option.splits)

lemma configured_weights [simp]: "configured t ck cw \<Longrightarrow> callCompareWeights t a b = Inr (cw a b)"
  by (auto simp: configured_def callCompareWeights_def split: option.splits)

lemma configured_mkTreap [simp]: "configured (mkTreap ck cw n) ck cw"
  by (simp add: configured_def mkTreap_def)

lemma callCompareKeys_mkTreap [simp]: "callCompareKeys (mkTreap ck cw n) a b = Inr (ck a b)"
  by (simp add: callCompareKeys_def mkTreap_def)

lemma callCompareWeights_mkTreap [simp]: "callCompareWeights (mkTreap ck cw n) a b = Inr (cw a b)"
  by (simp add: callCompareWeights_def mkTreap_def)

lemma cmpInt_order: "strict_total_order cmpInt"
  unfolding strict_total_order_def cmpInt_def by auto

lemma cmpInt_weight: "weight_order cmpInt"
  unfolding weight_order_def cmpInt_def by (auto split: if_splits)

lemma set_entries: "fst ` set (entries n) = keys n"
  by (induction n) auto

lemma entries_leftRotation: "leftRotation n = Inr n' \<Longrightarrow> entries n' = entries n"
  by (cases n rule: leftRotation.cases) auto

lemma entries_rightRotation: "rightRotation n = Inr n' \<Longrightarrow> entries n' = entries n"
  by (cases n rule: rightRotation.cases) auto

lemma leftRotation_not_nil: "leftRotation n = Inr n' \<Longrightarrow> n' \<noteq> nil"
  by (cases n rule: leftRotation.cases) auto

lemma rightRotation_not_nil: "rightRotation n = Inr n' \<Longrightarrow> n' \<noteq> nil"
  by (cases n rule: rightRotation.cases) auto

lemma rotateRight_total:
  assumes "configured t ck cw" "res \<noteq> nil"
  shows "\<exists>m. rotateRight t res = Inr m \<and> m \<noteq> nil \<and> entries m = entries res"
  using assms by (auto simp: rotateRight_def split: Node.splits)

lemma rebalance_total:
  assumes "configured t ck cw" "res \<noteq> nil"
  shows "\<exists>m. rebalance t res = Inr m \<and> m \<noteq> nil \<and> entries m = entries res"
  using assms rotateRight_total[OF assms] by (auto simp: rebalance_def split: Node.splits)


section \<open>Insertion into a search tree\<close>

lemma sto_range: "strict_total_order ck \<Longrightarrow> ck a b = -1 \<or> ck a b = 0 \<or> ck a b = 1"
  unfolding strict_total_order_def by blast

lemma sto_eq: "strict_total_order ck \<Longrightarrow> (ck a b = 0) = (a = b)"
  unfolding strict_total_order_def by blast

lemma sto_flip: "strict_total_order ck \<Longrightarrow> (ck a b = -1) = (ck b a = 1)"
  unfolding strict_total_order_def by blast

lemma sto_trans: "strict_total_order ck \<Longrightarrow> ck a b = -1 \<Longrightarrow> ck b c = -1 \<Longrightarrow> ck a c = -1"
  unfolding strict_total_order_def by blast

lemma sto_less: "strict_total_order ck \<Longrightarrow> (ck a b < 0) = (ck a b = -1)"
  using sto_range[of ck a b] by auto

lemma sto_greater: "strict_total_order ck \<Longrightarrow> (ck a b > 0) = (ck b a = -1)"
  using sto_range[of ck a b] sto_flip[of ck b a] by auto

lemma ins_append_less:
  "ck k a = -1 \<Longrightarrow> ins ck k v (xs @ (a, i) # ys) = ins ck k v xs @ (a, i) # ys"
  by (induction xs) auto

lemma ins_append_greater:
  "\<forall>x \<in> fst ` set xs. ck k x \<noteq> -1 \<Longrightarrow> ins ck k v (xs @ ys) = xs @ ins ck k v ys"
  by (induction xs) auto

lemma upsert_absent:
  assumes cfg: "configured t ck cw" and sto: "strict_total_order ck"
  shows "bst ck n \<Longrightarrow> k \<notin> keys n \<Longrightarrow>
    \<exists>n'. upsert t n k v w True False fn = Inr (n', True) \<and> n' \<noteq> nil \<and>
          entries n' = ins ck k v (entries n)"
proof (induction n)
  case nil
  then show ?case by simp
next
  case (Node nw nk ni nl nr)
  from Node.prems have ne: "k \<noteq> nk" by simp
  then have "ck k nk \<noteq> 0" using sto_eq[OF sto] by simp
  then consider (less) "ck k nk = -1" | (greater) "ck k nk = 1"
    using sto_range[OF sto, of k nk] by blast
  then show ?case
  proof cases
    case less
    from Node.IH(1) Node.prems obtain res where
      res: "upsert t nl k v w True False fn = Inr (res, True)" "res \<noteq> nil"
           "entries res = ins ck k v (entries nl)" by auto
    from rebalance_total[OF cfg, of "Node nw nk ni res nr"] obtain m where
      m: "rebalance t (Node nw nk ni res nr) = Inr m" "m \<noteq> nil"
         "entries m = entries (Node nw nk ni res nr)" by auto
    show ?thesis using cfg less res m
      by (simp add: finish_def ins_append_less)
  next
    case greater
    from Node.IH(2) Node.prems obtain res where
      res: "upsert t nr k v w True False fn = Inr (res, True)" "res \<noteq> nil"
           "entries res = ins ck k v (entries nr)" by auto
    from rebalance_total[OF cfg, of "Node nw nk ni nl res"] obtain m where
      m: "rebalance t (Node nw nk ni nl res) = Inr m" "m \<noteq> nil"
         "entries m = entries (Node nw nk ni nl res)" by auto
    have "\<forall>x \<in> keys nl. ck k x \<noteq> -1"
    proof
      fix x assume "x \<in> keys nl"
      with Node.prems have "ck x nk = -1" using sto_less[OF sto] by auto
      moreover from greater have "ck nk k = -1" using sto_flip[OF sto] by simp
      ultimately have "ck x k = -1" using sto_trans[OF sto] by blast
      then have "ck k x = 1" using sto_flip[OF sto] by simp
      then show "ck k x \<noteq> -1" by simp
    qed
    then have "\<forall>x \<in> fst ` set (entries nl @ [(nk, ni)]). ck k x \<noteq> -1"
      using greater by (auto simp: set_entries[symmetric])
    from ins_append_greater[of "entries nl @ [(nk, ni)]" ck k v "entries nr"] this
    have "ins ck k v (entries nl @ (nk, ni) # entries nr) = entries nl @ (nk, ni) # ins ck k v (entries nr)"
      by simp
    then show ?thesis using cfg greater res m
      by (simp add: finish_def)
  qed
qed

lemma upsert_present:
  assumes cfg: "configured t ck cw" and sto: "strict_total_order ck"
  shows "bst ck n \<Longrightarrow> k \<in> keys n \<Longrightarrow> upsert t n k v w create False fn = Inr (nil, False)"
proof (induction n)
  case nil
  then show ?case by simp
next
  case (Node nw nk ni nl nr)
  consider (less) "ck k nk = -1" | (greater) "ck k nk = 1" | (same) "ck k nk = 0"
    using sto_range[OF sto, of k nk] by blast
  then show ?case
  proof cases
    case less
    then have "k \<noteq> nk" using sto_eq[OF sto, of k nk] by auto
    moreover have "k \<notin> keys nr" using Node.prems less by auto
    ultimately have "k \<in> keys nl" using Node.prems by auto
    with Node show ?thesis using cfg less by simp
  next
    case greater
    then have "k \<noteq> nk" using sto_eq[OF sto, of k nk] by auto
    moreover have "k \<notin> keys nl" using Node.prems greater by auto
    ultimately have "k \<in> keys nr" using Node.prems by auto
    with Node show ?thesis using cfg greater by simp
  next
    case same
    then show ?thesis using cfg by simp
  qed
qed


lemma set_inorder: "set (inorder n) = keys n"
  by (simp add: inorder_def set_entries)

lemma inorder_Node: "inorder (Node w k i l r) = inorder l @ k # inorder r"
  by (simp add: inorder_def)

lemma bst_sorted:
  assumes sto: "strict_total_order ck"
  shows "bst ck n = sorted_wrt (\<lambda>a b. ck a b < 0) (inorder n)"
proof (induction n)
  case nil
  show ?case by (simp add: inorder_def)
next
  case (Node w k i l r)
  have flip: "\<And>x. (0 < ck x k) = (ck k x < 0)"
    using sto_greater[OF sto] sto_less[OF sto] by simp
  have cross: "(\<forall>x \<in> keys l. ck x k < 0) \<Longrightarrow> (\<forall>y \<in> keys r. ck k y < 0) \<Longrightarrow>
      \<forall>x \<in> keys l. \<forall>y \<in> keys r. ck x y < 0"
    using sto_trans[OF sto] sto_less[OF sto] by blast
  show ?case
    using Node cross
    by (auto simp: inorder_Node sorted_wrt_append set_inorder flip)
qed

lemma set_ins: "set (ins ck k v es) = insert (k, v) (set es)"
  by (induction es) (auto split: if_splits)

lemma sorted_ins:
  assumes sto: "strict_total_order ck"
  shows "sorted_wrt (\<lambda>a b. ck a b < 0) (map fst es) \<Longrightarrow> k \<notin> fst ` set es \<Longrightarrow>
    sorted_wrt (\<lambda>a b. ck a b < 0) (map fst (ins ck k v es))"
proof (induction es)
  case Nil
  show ?case by simp
next
  case (Cons e es)
  obtain a i where e: "e = (a, i)" by (cases e)
  show ?case
  proof (cases "ck k a = -1")
    case True
    have "\<forall>x \<in> set es. ck k (fst x) < 0"
    proof
      fix x assume "x \<in> set es"
      with Cons.prems e have "ck a (fst x) = -1" using sto_less[OF sto] by auto
      with True have "ck k (fst x) = -1" using sto_trans[OF sto] by blast
      then show "ck k (fst x) < 0" by simp
    qed
    with True Cons.prems e show ?thesis by auto
  next
    case False
    from Cons.prems e have "k \<noteq> a" by auto
    with False have "ck k a = 1" using sto_range[OF sto, of k a] sto_eq[OF sto, of k a] by auto
    then have "ck a k < 0" using sto_flip[OF sto, of a k] by simp
    with False Cons e show ?thesis by (auto simp: set_ins)
  qed
qed

lemma map_of_ins:
  "k \<notin> fst ` set es \<Longrightarrow> map_of (ins ck k v es) = (map_of es)(k \<mapsto> v)"
  by (induction es) (auto simp: fun_upd_twist)

lemma Get_bst:
  assumes cfg: "configured t ck cw" and sto: "strict_total_order ck"
  shows "bst ck n \<Longrightarrow>
    Get t n k = (case map_of (entries n) k of None \<Rightarrow> Inr (None, False) | Some i \<Rightarrow> Inr (i, True))"
proof (induction n)
  case nil
  show ?case by (simp add: Get_def)
next
  case (Node nw nk ni nl nr)
  consider (less) "ck k nk = -1" | (greater) "ck k nk = 1" | (same) "ck k nk = 0"
    using sto_range[OF sto, of k nk] by blast
  then show ?case
  proof cases
    case less
    then have "k \<noteq> nk" using sto_eq[OF sto, of k nk] by auto
    moreover have "k \<notin> keys nr" using Node.prems less by auto
    then have "map_of (entries nr) k = None"
      by (simp add: map_of_eq_None_iff set_entries)
    moreover have "Get t (Node nw nk ni nl nr) k = Get t nl k"
      using cfg less by (simp add: Get_def)
    ultimately show ?thesis using Node
      by (auto simp: map_add_def split: option.splits)
  next
    case greater
    then have "k \<noteq> nk" using sto_eq[OF sto, of k nk] by auto
    moreover have "k \<notin> keys nl" using Node.prems greater by auto
    then have "map_of (entries nl) k = None"
      by (simp add: map_of_eq_None_iff set_entries)
    moreover have "Get t (Node nw nk ni nl nr) k = Get t nr k"
      using cfg greater by (simp add: Get_def)
    ultimately show ?thesis using Node
      by (auto simp: map_add_def split: option.splits)
  next
    case same
    then have "k = nk" using sto_eq[OF sto, of k nk] by simp
    moreover have "ck nk nk = 0" using sto_eq[OF sto, of nk nk] by simp
    then have "nk \<notin> keys nl" using Node.prems by auto
    then have "map_of (entries nl) nk = None"
      by (simp add: map_of_eq_None_iff set_entries)
    moreover have "Get t (Node nw nk ni nl nr) k = Inr (ni, True)"
      using cfg same by (simp add: Get_def)
    ultimately show ?thesis
      by (auto simp: map_add_def split: option.splits)
  qed
qed



lemma GetNode_found_upsert:
  "GetNode t n k = Inr (m, True) \<Longrightarrow> upsert t n k v w create False fn = Inr (nil, False)"
proof (induction n)
  case nil
  then show ?case by simp
next
  case (Node nw nk ni nl nr)
  then show ?case
    by (cases "callCompareKeys t k nk") (auto split: if_splits)
qed

text \<open>
  Claim C1, as amended. For a root that satisfies the search-tree invariant and a key
  \<open>k\<close> that \<open>Get\<close> does not find in it, under a key comparator that is a strict
  total order with values \<open>-1\<close>, \<open>0\<close>, \<open>1\<close>: \<open>Insert\<close> returns a new root with
  \<open>created = true\<close>, and \<open>Get\<close> of \<open>k\<close> in that root is \<open>(v, true)\<close>.
\<close>

theorem Insert_Get_roundtrip:
  assumes "configured t ck cw" and "strict_total_order ck" and "bst ck n"
    and "Get t n k = Inr (None, False)"
  shows "\<exists>newRoot. Insert t n k v w = Inr (newRoot, True) \<and> Get t newRoot k = Inr (v, True)"
proof -
  have "map_of (entries n) k = None"
    using assms(4) Get_bst[OF assms(1,2,3), of k] by (auto split: option.splits)
  then have absent: "k \<notin> keys n"
    by (simp add: map_of_eq_None_iff set_entries)
  from upsert_absent[OF assms(1,2,3) absent, of v w None] obtain n' where
    n': "Insert t n k v w = Inr (n', True)" "entries n' = ins ck k v (entries n)"
    by (auto simp: Insert_def)
  have "sorted_wrt (\<lambda>a b. ck a b < 0) (map fst (entries n))"
    using bst_sorted[OF assms(2), of n] assms(3) by (simp add: inorder_def)
  then have "bst ck n'"
    using sorted_ins[OF assms(2), of "entries n" k v] absent n'(2) bst_sorted[OF assms(2), of n']
    by (simp add: inorder_def set_entries)
  then have "Get t n' k = Inr (v, True)"
    using Get_bst[OF assms(1,2), of n' k] n'(2) absent
    by (simp add: map_of_ins set_entries)
  with n'(1) show ?thesis by blast
qed

theorem Insert_Get_roundtrip_witness:
  "Insert exTreap (Node 7 5 (Some ''five'') nil nil) 3 (Some ''three'') 2 =
     Inr (Node 2 3 (Some ''three'') nil (Node 7 5 (Some ''five'') nil nil), True) \<and>
   Get exTreap (Node 2 3 (Some ''three'') nil (Node 7 5 (Some ''five'') nil nil)) 3 =
     Inr (Some ''three'', True)"
proof -
  have c: "configured exTreap cmpInt cmpInt" by (simp add: exTreap_def)
  have b: "bst cmpInt (Node 7 5 (Some ''five'') nil nil :: (int, string) Node)" by simp
  have g: "Get exTreap (Node 7 5 (Some ''five'') nil nil) 3 = Inr (None, False)"
    by (simp add: Get_def exTreap_def cmpInt_def)
  have i: "Insert exTreap (Node 7 5 (Some ''five'') nil nil) 3 (Some ''three'') 2 =
     Inr (Node 2 3 (Some ''three'') nil (Node 7 5 (Some ''five'') nil nil), True)"
    by (simp add: Insert_def exTreap_def cmpInt_def finish_def rebalance_def)
  from Insert_Get_roundtrip[OF c cmpInt_order b g, of "Some ''three''" 2] i
  show ?thesis by auto
qed

text \<open>
  Claim C1 as stated fails for a key that is already there: \<open>Insert\<close> returns the
  nil root, in which \<open>Get\<close> finds nothing. It also fails for an absent key when the
  root given is not a search tree (here the right child has the smaller key and the
  better weight): the rotation moves the new leaf off the search path of its key.
\<close>

theorem Insert_present_key_counterexample:
  "Insert exTreap nil 5 (Some ''old'') 7 = Inr (Node 7 5 (Some ''old'') nil nil, True) \<and>
   Insert exTreap (Node 7 5 (Some ''old'') nil nil) 5 (Some ''new'') 7 = Inr (nil, False) \<and>
   Get exTreap nil 5 = Inr (None, False) \<and>
   Get exTreap nil 5 \<noteq> Inr (Some ''new'', True) \<and>
   Insert exTreap (Node 10 5 (Some ''five'') nil (Node 1 2 (Some ''two'') nil nil)) 3
       (Some ''three'') 20 =
     Inr (Node 1 2 (Some ''two'')
           (Node 10 5 (Some ''five'') (Node 20 3 (Some ''three'') nil nil) nil) nil, True) \<and>
   Get exTreap (Node 1 2 (Some ''two'')
           (Node 10 5 (Some ''five'') (Node 20 3 (Some ''three'') nil nil) nil) nil) 3 =
     Inr (None, False)"
  by (simp add: Insert_def Get_def exTreap_def cmpInt_def finish_def rebalance_def
      rotateRight_def)

lemma reachable_bst_aux:
  assumes cfg: "configured t ck cw" and sto: "strict_total_order ck"
  shows "reachable t n \<Longrightarrow> bst ck n"
proof (induction rule: reachable.induct)
  case reachable_nil
  show ?case by simp
next
  case (reachable_Insert n k v w n' created)
  show ?case
  proof (cases "k \<in> keys n")
    case True
    from upsert_present[OF cfg sto reachable_Insert.IH True, of v w True None]
      reachable_Insert.hyps(2)
    show ?thesis by (simp add: Insert_def)
  next
    case False
    from upsert_absent[OF cfg sto reachable_Insert.IH False, of v w None]
      reachable_Insert.hyps(2)
    have e: "entries n' = ins ck k v (entries n)" by (auto simp: Insert_def)
    have "sorted_wrt (\<lambda>a b. ck a b < 0) (map fst (entries n))"
      using bst_sorted[OF sto, of n] reachable_Insert.IH by (simp add: inorder_def)
    then show ?thesis
      using sorted_ins[OF sto, of "entries n" k v] False e bst_sorted[OF sto, of n']
      by (simp add: inorder_def set_entries)
  qed
qed

text \<open>
  Claim C2. Every tree reachable from the empty tree by \<open>Insert\<close>, under a key
  comparator that is a strict total order with values \<open>-1\<close>, \<open>0\<close>, \<open>1\<close>, satisfies
  the search-tree invariant: at every node the keys on the left compare less and the keys
  on the right compare greater, and the in-order traversal is strictly increasing.
\<close>

theorem reachable_search_tree:
  assumes "configured t ck cw" and "strict_total_order ck" and "reachable t n"
  shows "bst ck n \<and> sorted_wrt (\<lambda>a b. ck a b < 0) (inorder n)"
  using reachable_bst_aux[OF assms] bst_sorted[OF assms(2), of n] by simp

lemma ex_reachable:
  "reachable exTreap (Node 2 3 (Some ''three'') nil (Node 7 5 (Some ''five'') nil nil))"
proof -
  have 1: "Insert exTreap nil 5 (Some ''five'') 7 = Inr (Node 7 5 (Some ''five'') nil nil, True)"
    by (simp add: Insert_def)
  have 2: "Insert exTreap (Node 7 5 (Some ''five'') nil nil) 3 (Some ''three'') 2 =
     Inr (Node 2 3 (Some ''three'') nil (Node 7 5 (Some ''five'') nil nil), True)"
    by (simp add: Insert_def exTreap_def cmpInt_def finish_def rebalance_def)
  show ?thesis
    by (rule reachable_Insert[OF reachable_Insert[OF reachable_nil 1] 2])
qed

theorem reachable_search_tree_witness:
  "reachable exTreap (Node 2 3 (Some ''three'') nil (Node 7 5 (Some ''five'') nil nil)) \<and>
   bst cmpInt (Node 2 3 (Some ''three'') nil (Node 7 5 (Some ''five'') nil nil) :: (int, string) Node) \<and>
   sorted_wrt (\<lambda>a b. cmpInt a b < 0)
     (inorder (Node 2 3 (Some ''three'') nil (Node 7 5 (Some ''five'') nil nil) :: (int, string) Node))"
proof -
  have c: "configured exTreap cmpInt cmpInt" by (simp add: exTreap_def)
  from reachable_search_tree[OF c cmpInt_order ex_reachable] ex_reachable
  show ?thesis by simp
qed

text \<open>
  Claim C4, as amended. \<open>Insert\<close> of a key that \<open>Get\<close> finds in the tree raises
  nothing and returns \<open>created = false\<close> together with the nil root: the sentinel of
  the no-op, not a tree with the contents of the input.
\<close>

theorem Insert_present_returns_nil:
  assumes "Get t n k = Inr (i, True)"
  shows "Insert t n k v w = Inr (nil, False)"
proof -
  from assms obtain m where "GetNode t n k = Inr (m, True)"
    by (auto simp: Get_def split: sum.splits if_splits)
  then show ?thesis unfolding Insert_def by (rule GetNode_found_upsert)
qed

theorem Insert_present_returns_nil_witness:
  "Get exTreap (Node 7 5 (Some ''old'') nil nil) 5 = Inr (Some ''old'', True) \<and>
   Insert exTreap (Node 7 5 (Some ''old'') nil nil) 5 (Some ''new'') 1 = Inr (nil, False)"
proof -
  have g: "Get exTreap (Node 7 5 (Some ''old'') nil nil) 5 = Inr (Some ''old'', True)"
    by (simp add: Get_def exTreap_def cmpInt_def)
  from Insert_present_returns_nil[OF g, of "Some ''new''" 1] g show ?thesis by simp
qed

text \<open>
  Claim C4 as stated fails: the tree returned for a key that is there is nil, and its
  contents are not those of the input tree.
\<close>

theorem Insert_present_not_identical_counterexample:
  "Get exTreap (Node 7 5 (Some ''old'') nil nil) 5 = Inr (Some ''old'', True) \<and>
   Insert exTreap (Node 7 5 (Some ''old'') nil nil) 5 (Some ''new'') 1 = Inr (nil, False) \<and>
   entries (nil :: (int, string) Node) \<noteq> entries (Node 7 5 (Some ''old'') nil nil)"
  by (simp add: Insert_def Get_def exTreap_def cmpInt_def)

lemma traversals_agree:
  assumes cfg: "configured t ck cw" and rng: "\<forall>a b. ck a b = -1 \<or> ck a b = 0 \<or> ck a b = 1"
  shows "GetNode t n k = Inr (m, found) \<Longrightarrow>
    \<exists>n'. upsert t n k v w True False fn = Inr (n', \<not> found) \<and> (n' = nil) = found"
proof (induction n)
  case nil
  then show ?case by auto
next
  case (Node nw nk ni nl nr)
  consider (less) "ck k nk = -1" | (greater) "ck k nk = 1" | (same) "ck k nk = 0"
    using rng by blast
  then show ?case
  proof cases
    case less
    with Node.prems cfg have "GetNode t nl k = Inr (m, found)" by simp
    from Node.IH(1)[OF this] obtain res where
      res: "upsert t nl k v w True False fn = Inr (res, \<not> found)" "(res = nil) = found" by blast
    show ?thesis
    proof (cases found)
      case True
      with res cfg less show ?thesis by simp
    next
      case False
      with res have "res \<noteq> nil" by simp
      from rebalance_total[OF cfg, of "Node nw nk ni res nr"] obtain r where
        "rebalance t (Node nw nk ni res nr) = Inr r" "r \<noteq> nil" by auto
      with res cfg less False show ?thesis by (simp add: finish_def)
    qed
  next
    case greater
    with Node.prems cfg have "GetNode t nr k = Inr (m, found)" by simp
    from Node.IH(2)[OF this] obtain res where
      res: "upsert t nr k v w True False fn = Inr (res, \<not> found)" "(res = nil) = found" by blast
    show ?thesis
    proof (cases found)
      case True
      with res cfg greater show ?thesis by simp
    next
      case False
      with res have "res \<noteq> nil" by simp
      from rebalance_total[OF cfg, of "Node nw nk ni nl res"] obtain r where
        "rebalance t (Node nw nk ni nl res) = Inr r" "r \<noteq> nil" by auto
      with res cfg greater False show ?thesis by (simp add: finish_def)
    qed
  next
    case same
    with Node.prems cfg show ?thesis by auto
  qed
qed

lemma upsert_other_value:
  assumes "callCompareKeys t k nk = Inr c" "c \<noteq> -1" "c \<noteq> 1"
  shows "upsert t (Node nw nk ni nl nr) k v w create update fn =
    (if \<not> update then Inr (nil, False)
     else if fn \<noteq> None \<and> \<not> (the fn) (Node nw nk ni nl nr) then Inr (Node nw nk ni nl nr, False)
     else finish (rebalance t (Node w nk (if create then v else ni) nl nr)) False)"
  using assms by simp

lemma rotateRight_weights_only:
  "configured t ck cw \<Longrightarrow> configured t' ck' cw \<Longrightarrow> rotateRight t res = rotateRight t' res"
  by (simp add: rotateRight_def split: Node.splits)

lemma rebalance_weights_only:
  "configured t ck cw \<Longrightarrow> configured t' ck' cw \<Longrightarrow> rebalance t res = rebalance t' res"
  using rotateRight_weights_only[of t ck cw t' ck' res]
  by (simp add: rebalance_def split: Node.splits)

text \<open>
  Claim C10. \<open>upsert\<close> tests the comparator's result against the values \<open>-1\<close> and
  \<open>1\<close> and treats every other value as equality: with any such value \<open>Insert\<close>
  returns the nil root with \<open>created = false\<close>, and \<open>upsert\<close> returns what it
  returns under a comparator that says \<open>0\<close> there. \<open>GetNode\<close> goes by the sign:
  left on a negative result, right on a positive one, found on \<open>0\<close>. So where the
  comparator's value is none of \<open>-1\<close>, \<open>0\<close>, \<open>1\<close>, \<open>GetNode\<close> descends and
  finds the key absent in the one-node tree, while \<open>Insert\<close> of that key creates
  nothing. The two traversals agree on every tree and key (\<open>Insert\<close> creates exactly
  when \<open>GetNode\<close> does not find the key) if and only if the comparator returns only
  \<open>-1\<close>, \<open>0\<close> and \<open>1\<close>.
\<close>

theorem comparator_values_matter:
  assumes cfg: "configured t ck cw"
  shows
  "(ck k nk \<noteq> -1 \<longrightarrow> ck k nk \<noteq> 1 \<longrightarrow>
      Insert t (Node nw nk ni nl nr) k v w = Inr (nil, False) \<and>
      (\<forall>t' ck'. configured t' ck' cw \<longrightarrow> ck' k nk = 0 \<longrightarrow>
         upsert t (Node nw nk ni nl nr) k v w create update fn =
         upsert t' (Node nw nk ni nl nr) k v w create update fn)) \<and>
   (ck k nk < 0 \<longrightarrow> GetNode t (Node nw nk ni nl nr) k = GetNode t nl k) \<and>
   (ck k nk > 0 \<longrightarrow> GetNode t (Node nw nk ni nl nr) k = GetNode t nr k) \<and>
   (ck k nk = 0 \<longrightarrow> GetNode t (Node nw nk ni nl nr) k = Inr (Node nw nk ni nl nr, True)) \<and>
   (ck k nk \<noteq> -1 \<and> ck k nk \<noteq> 0 \<and> ck k nk \<noteq> 1 \<longrightarrow>
      GetNode t (Node nw nk ni nil nil) k = Inr (nil, False) \<and>
      Insert t (Node nw nk ni nil nil) k v w = Inr (nil, False)) \<and>
   ((\<forall>a b. ck a b = -1 \<or> ck a b = 0 \<or> ck a b = 1) =
    (\<forall>n k m found. GetNode t n k = Inr (m, found) \<longrightarrow>
       (\<exists>n'. Insert t n k v w = Inr (n', \<not> found) \<and> (n' = nil) = found)))"
proof -
  have ckk: "\<And>a b. callCompareKeys t a b = Inr (ck a b)" using cfg by simp
  have other: "Insert t (Node w1 b i1 l1 r1) a v w = Inr (nil, False)"
    if "ck a b \<noteq> -1" "ck a b \<noteq> 1" for a b w1 i1 l1 r1
    using that ckk by (simp add: Insert_def)
  have same: "upsert t (Node nw nk ni nl nr) k v w create update fn =
         upsert t' (Node nw nk ni nl nr) k v w create update fn"
    if "ck k nk \<noteq> -1" "ck k nk \<noteq> 1" "configured t' ck' cw" "ck' k nk = 0" for t' ck'
  proof -
    have "callCompareKeys t' k nk = Inr 0" using that(3,4) by simp
    from upsert_other_value[OF this, of nw ni nl nr v w create update fn]
      upsert_other_value[OF ckk that(1,2), of nw ni nl nr v w create update fn]
      rebalance_weights_only[OF cfg that(3)]
    show ?thesis by simp
  qed
  have getl: "ck k nk < 0 \<longrightarrow> GetNode t (Node nw nk ni nl nr) k = GetNode t nl k"
    using ckk by simp
  have getr: "ck k nk > 0 \<longrightarrow> GetNode t (Node nw nk ni nl nr) k = GetNode t nr k"
    using ckk by simp
  have get0: "ck k nk = 0 \<longrightarrow> GetNode t (Node nw nk ni nl nr) k = Inr (Node nw nk ni nl nr, True)"
    using ckk by simp
  have leaf: "GetNode t (Node w1 b i1 nil nil) a = Inr (nil, False)" if "ck a b \<noteq> 0" for a b w1 i1
    using that ckk by simp
  have iff: "(\<forall>a b. ck a b = -1 \<or> ck a b = 0 \<or> ck a b = 1) =
    (\<forall>n k m found. GetNode t n k = Inr (m, found) \<longrightarrow>
       (\<exists>n'. Insert t n k v w = Inr (n', \<not> found) \<and> (n' = nil) = found))"
  proof
    assume rng: "\<forall>a b. ck a b = -1 \<or> ck a b = 0 \<or> ck a b = 1"
    show "\<forall>n k m found. GetNode t n k = Inr (m, found) \<longrightarrow>
       (\<exists>n'. Insert t n k v w = Inr (n', \<not> found) \<and> (n' = nil) = found)"
      using traversals_agree[OF cfg rng, of _ _ _ _ v w None] by (simp add: Insert_def)
  next
    assume agree: "\<forall>n k m found. GetNode t n k = Inr (m, found) \<longrightarrow>
       (\<exists>n'. Insert t n k v w = Inr (n', \<not> found) \<and> (n' = nil) = found)"
    show "\<forall>a b. ck a b = -1 \<or> ck a b = 0 \<or> ck a b = 1"
    proof (intro allI, rule ccontr)
      fix a b assume "\<not> (ck a b = -1 \<or> ck a b = 0 \<or> ck a b = 1)"
      then have out: "ck a b \<noteq> -1" "ck a b \<noteq> 0" "ck a b \<noteq> 1" by auto
      from agree leaf[OF out(2), of 0 None]
      obtain n' where "Insert t (Node 0 b None nil nil) a v w = Inr (n', True)" by fastforce
      with other[OF out(1) out(3), of 0 None nil nil] show False by simp
    qed
  qed
  from other[of k nk nw ni nl nr] other[of k nk nw ni nil nil] same getl getr get0
    leaf[of k nk nw ni] iff
  show ?thesis by blast
qed

theorem comparator_values_matter_witness:
  "configured wideTreap cmpWide cmpInt \<and> cmpWide 3 5 = -2 \<and> cmpWide 8 5 = 2 \<and>
   Insert wideTreap (Node 7 5 (Some ''five'') nil nil) 3 (Some ''three'') 2 = Inr (nil, False) \<and>
   GetNode wideTreap (Node 7 5 (Some ''five'') nil nil) 3 = Inr (nil, False) \<and>
   Insert wideTreap (Node 7 5 (Some ''five'') nil nil) 8 (Some ''eight'') 9 = Inr (nil, False) \<and>
   GetNode wideTreap (Node 7 5 (Some ''five'') nil nil) 8 = Inr (nil, False) \<and>
   GetNode wideTreap (Node 7 5 (Some ''five'') (Node 9 3 (Some ''three'') nil nil) nil) 3 =
     Inr (Node 9 3 (Some ''three'') nil nil, True) \<and>
   GetNode wideTreap (Node 7 5 (Some ''five'') nil (Node 9 8 (Some ''eight'') nil nil)) 8 =
     Inr (Node 9 8 (Some ''eight'') nil nil, True) \<and>
   configured exTreap cmpInt cmpInt \<and> cmpInt 3 5 = -1 \<and> cmpInt 8 5 = 1 \<and>
   Insert exTreap (Node 7 5 (Some ''five'') nil nil) 3 (Some ''three'') 9 =
     Inr (Node 7 5 (Some ''five'') (Node 9 3 (Some ''three'') nil nil) nil, True) \<and>
   Insert exTreap (Node 7 5 (Some ''five'') nil nil) 8 (Some ''eight'') 9 =
     Inr (Node 7 5 (Some ''five'') nil (Node 9 8 (Some ''eight'') nil nil), True) \<and>
   (\<exists>n'. Insert exTreap (Node 7 5 (Some ''five'') nil nil) 3 (Some ''three'') 9 = Inr (n', True)) \<and>
   GetNode exTreap (Node 7 5 (Some ''five'') nil nil) 5 =
     Inr (Node 7 5 (Some ''five'') nil nil, True)"
proof -
  have cw: "configured wideTreap cmpWide cmpInt" by (simp add: wideTreap_def)
  have ce: "configured exTreap cmpInt cmpInt" by (simp add: exTreap_def)
  have v: "cmpWide 3 5 = -2" "cmpWide 8 5 = 2" "cmpInt 3 5 = -1" "cmpInt 8 5 = 1"
    by (simp_all add: cmpWide_def cmpInt_def)
  have rng: "\<forall>a b. cmpInt a b = -1 \<or> cmpInt a b = 0 \<or> cmpInt a b = 1"
    by (simp add: cmpInt_def)
  have g3: "GetNode exTreap (Node 7 5 (Some ''five'') nil nil) 3 = Inr (nil, False)"
    and g8: "GetNode exTreap (Node 7 5 (Some ''five'') nil nil) 8 = Inr (nil, False)"
    by (simp_all add: exTreap_def cmpInt_def)
  have i3: "Insert exTreap (Node 7 5 (Some ''five'') nil nil) 3 (Some ''three'') 9 =
     Inr (Node 7 5 (Some ''five'') (Node 9 3 (Some ''three'') nil nil) nil, True)"
    and i8: "Insert exTreap (Node 7 5 (Some ''five'') nil nil) 8 (Some ''eight'') 9 =
     Inr (Node 7 5 (Some ''five'') nil (Node 9 8 (Some ''eight'') nil nil), True)"
    by (simp_all add: Insert_def exTreap_def cmpInt_def finish_def rebalance_def rotateRight_def)
  note W3 = comparator_values_matter[OF cw, of 3 5 7 "Some ''five''" nil nil "Some ''three''" 2]
  note W3l = comparator_values_matter[OF cw, of 3 5 7 "Some ''five''"
      "Node 9 3 (Some ''three'') nil nil" nil]
  note W8 = comparator_values_matter[OF cw, of 8 5 7 "Some ''five''" nil nil "Some ''eight''" 9]
  note W8r = comparator_values_matter[OF cw, of 8 5 7 "Some ''five''" nil
      "Node 9 8 (Some ''eight'') nil nil"]
  have w3: "GetNode wideTreap (Node 7 5 (Some ''five'') nil nil) 3 = Inr (nil, False) \<and>
     Insert wideTreap (Node 7 5 (Some ''five'') nil nil) 3 (Some ''three'') 2 = Inr (nil, False)"
    using W3[THEN conjunct2, THEN conjunct2, THEN conjunct2, THEN conjunct2, THEN conjunct1] v
    by simp
  have w8: "GetNode wideTreap (Node 7 5 (Some ''five'') nil nil) 8 = Inr (nil, False) \<and>
     Insert wideTreap (Node 7 5 (Some ''five'') nil nil) 8 (Some ''eight'') 9 = Inr (nil, False)"
    using W8[THEN conjunct2, THEN conjunct2, THEN conjunct2, THEN conjunct2, THEN conjunct1] v
    by simp
  have d3: "GetNode wideTreap (Node 7 5 (Some ''five'') (Node 9 3 (Some ''three'') nil nil) nil) 3 =
       GetNode wideTreap (Node 9 3 (Some ''three'') nil nil) 3"
    using W3l[THEN conjunct2, THEN conjunct1] v by simp
  have d8: "GetNode wideTreap (Node 7 5 (Some ''five'') nil (Node 9 8 (Some ''eight'') nil nil)) 8 =
       GetNode wideTreap (Node 9 8 (Some ''eight'') nil nil) 8"
    using W8r[THEN conjunct2, THEN conjunct2, THEN conjunct1] v by simp
  have f: "GetNode wideTreap (Node 9 3 (Some ''three'') nil nil) 3 =
       Inr (Node 9 3 (Some ''three'') nil nil, True)"
    "GetNode wideTreap (Node 9 8 (Some ''eight'') nil nil) 8 =
       Inr (Node 9 8 (Some ''eight'') nil nil, True)"
    by (simp_all add: wideTreap_def cmpWide_def)
  note E = comparator_values_matter[OF ce, of 3 5 7 "Some ''five''" nil nil "Some ''three''" 9]
  note agree = E[THEN conjunct2, THEN conjunct2, THEN conjunct2, THEN conjunct2, THEN conjunct2,
      THEN iffD1, OF rng, rule_format, OF g3]
  have a3: "\<exists>n'. Insert exTreap (Node 7 5 (Some ''five'') nil nil) 3 (Some ''three'') 9 = Inr (n', True)"
    using agree by auto
  note E5 = comparator_values_matter[OF ce, of 5 5 7 "Some ''five''" nil nil]
  have g5: "GetNode exTreap (Node 7 5 (Some ''five'') nil nil) 5 =
     Inr (Node 7 5 (Some ''five'') nil nil, True)"
    using E5[THEN conjunct2, THEN conjunct2, THEN conjunct2, THEN conjunct1]
    by (simp add: cmpInt_def)
  show ?thesis
    apply (intro conjI)
    apply (rule cw)
    apply (rule v(1))
    apply (rule v(2))
    apply (rule w3[THEN conjunct2])
    apply (rule w3[THEN conjunct1])
    apply (rule w8[THEN conjunct2])
    apply (rule w8[THEN conjunct1])
    apply (simp only: d3 f)
    apply (simp only: d8 f)
    apply (rule ce)
    apply (rule v(3))
    apply (rule v(4))
    apply (rule i3)
    apply (rule i8)
    apply (rule a3)
    apply (rule g5)
    done
qed

section \<open>The heap invariant\<close>

lemma wo_total: "weight_order cw \<Longrightarrow> cw a b < 0 \<Longrightarrow> 0 \<le> cw b a"
  unfolding weight_order_def by blast

lemma wo_trans: "weight_order cw \<Longrightarrow> 0 \<le> cw a b \<Longrightarrow> 0 \<le> cw b c \<Longrightarrow> 0 \<le> cw a c"
  unfolding weight_order_def by blast

lemma bounded_trans:
  "weight_order cw \<Longrightarrow> bounded cw a n \<Longrightarrow> 0 \<le> cw a b \<Longrightarrow> bounded cw b n"
  unfolding bounded_def using wo_trans by blast

lemma bounded_Node [simp]:
  "bounded cw b (Node w k i l r) = (bounded cw b l \<and> 0 \<le> cw w b \<and> bounded cw b r)"
  unfolding bounded_def by auto

lemma bounded_nil [simp]: "bounded cw b nil"
  unfolding bounded_def by simp

lemma heap_bounded:
  assumes wo: "weight_order cw"
  shows "heap cw n \<Longrightarrow> childOk cw n b \<Longrightarrow> bounded cw b n"
proof (induction n arbitrary: b)
  case nil
  show ?case by simp
next
  case (Node w k i l r)
  then have "bounded cw w l" "bounded cw w r" "0 \<le> cw w b" by auto
  then show ?case using bounded_trans[OF wo] by auto
qed

lemma childOk_bounded: "bounded cw b n \<Longrightarrow> childOk cw n b"
  by (cases n) auto


lemma rebalance_left_heap:
  assumes cfg: "configured t ck cw" and wo: "weight_order cw"
    and hres: "heap cw res" and hnr: "heap cw nr" and cnr: "childOk cw nr nw"
    and bnl: "bounded cw nw nl"
    and sub: "\<forall>b. bounded cw b nl \<longrightarrow> bounded_below_root cw b res"
    and ne: "res \<noteq> nil"
    and reb: "rebalance t (Node nw nk ni res nr) = Inr m"
  shows "heap cw m \<and>
    (\<forall>b. bounded cw b nl \<and> 0 \<le> cw nw b \<and> bounded cw b nr \<longrightarrow> bounded_below_root cw b m)"
proof -
  from ne obtain rw rk ri rl rr where res: "res = Node rw rk ri rl rr" by (cases res) auto
  show ?thesis
  proof (cases "cw rw nw < 0")
    case True
    with reb cfg res have m: "m = Node rw rk ri rl (Node nw nk ni rr nr)"
      by (simp add: rebalance_def)
    from sub bnl res have "bounded cw nw rr" by auto
    then have "childOk cw rr nw" by (rule childOk_bounded)
    moreover from True have "0 \<le> cw nw rw" by (rule wo_total[OF wo])
    ultimately have "heap cw m" using hres hnr cnr res m by simp
    moreover have "\<forall>b. bounded cw b nl \<and> 0 \<le> cw nw b \<and> bounded cw b nr \<longrightarrow> bounded_below_root cw b m"
      using sub res m by auto
    ultimately show ?thesis by simp
  next
    case False
    with reb cfg res cnr have m: "m = Node nw nk ni res nr"
      by (auto simp: rebalance_def rotateRight_def split: Node.splits if_splits)
    from False have le: "0 \<le> cw rw nw" by simp
    then have "heap cw m" using hres hnr cnr res m by simp
    moreover have "\<forall>b. bounded cw b nl \<and> 0 \<le> cw nw b \<and> bounded cw b nr \<longrightarrow> bounded_below_root cw b m"
      using sub res m le wo_trans[OF wo] by auto
    ultimately show ?thesis by simp
  qed
qed

lemma rebalance_right_heap:
  assumes cfg: "configured t ck cw" and wo: "weight_order cw"
    and hres: "heap cw res" and hnl: "heap cw nl" and cnl: "childOk cw nl nw"
    and bnr: "bounded cw nw nr"
    and sub: "\<forall>b. bounded cw b nr \<longrightarrow> bounded_below_root cw b res"
    and ne: "res \<noteq> nil"
    and reb: "rebalance t (Node nw nk ni nl res) = Inr m"
  shows "heap cw m \<and>
    (\<forall>b. bounded cw b nl \<and> 0 \<le> cw nw b \<and> bounded cw b nr \<longrightarrow> bounded_below_root cw b m)"
proof -
  from ne obtain rw rk ri rl rr where res: "res = Node rw rk ri rl rr" by (cases res) auto
  from reb cfg cnl have rot: "rotateRight t (Node nw nk ni nl res) = Inr m"
    by (auto simp: rebalance_def split: Node.splits if_splits)
  show ?thesis
  proof (cases "cw rw nw < 0")
    case True
    with rot cfg res have m: "m = Node rw rk ri (Node nw nk ni nl rl) rr"
      by (simp add: rotateRight_def)
    from sub bnr res have "bounded cw nw rl" by auto
    then have "childOk cw rl nw" by (rule childOk_bounded)
    moreover from True have "0 \<le> cw nw rw" by (rule wo_total[OF wo])
    ultimately have "heap cw m" using hres hnl cnl res m by simp
    moreover have "\<forall>b. bounded cw b nl \<and> 0 \<le> cw nw b \<and> bounded cw b nr \<longrightarrow> bounded_below_root cw b m"
      using sub res m by auto
    ultimately show ?thesis by simp
  next
    case False
    with rot cfg res have m: "m = Node nw nk ni nl res"
      by (simp add: rotateRight_def)
    from False have le: "0 \<le> cw rw nw" by simp
    then have "heap cw m" using hres hnl cnl res m by simp
    moreover have "\<forall>b. bounded cw b nl \<and> 0 \<le> cw nw b \<and> bounded cw b nr \<longrightarrow> bounded_below_root cw b m"
      using sub res m le wo_trans[OF wo] by auto
    ultimately show ?thesis by simp
  qed
qed

lemma upsert_heap:
  assumes cfg: "configured t ck cw" and wo: "weight_order cw"
  shows "heap cw n \<Longrightarrow> upsert t n k v w True False fn = Inr (res, c) \<Longrightarrow>
    heap cw res \<and> (\<forall>b. bounded cw b n \<longrightarrow> bounded_below_root cw b res)"
proof (induction n arbitrary: res c)
  case nil
  then show ?case by auto
next
  case (Node nw nk ni nl nr)
  from Node.prems(1) have h: "heap cw nl" "heap cw nr" "childOk cw nl nw" "childOk cw nr nw"
    by auto
  have bl: "bounded cw nw nl" using heap_bounded[OF wo h(1) h(3)] .
  have br: "bounded cw nw nr" using heap_bounded[OF wo h(2) h(4)] .
  consider (less) "ck k nk = -1" | (greater) "ck k nk \<noteq> -1" "ck k nk = 1"
    | (other) "ck k nk \<noteq> -1" "ck k nk \<noteq> 1" by blast
  then show ?case
  proof cases
    case less
    with Node.prems(2) cfg obtain r1 c1 where
      r1: "upsert t nl k v w True False fn = Inr (r1, c1)"
      by (auto split: sum.splits)
    show ?thesis
    proof (cases "r1 = nil")
      case True
      with Node.prems(2) cfg less r1 show ?thesis by auto
    next
      case False
      with Node.prems(2) cfg less r1 have reb: "rebalance t (Node nw nk ni r1 nr) = Inr res"
        by (auto simp: finish_def split: sum.splits)
      from Node.IH(1)[OF h(1) r1] have ih: "heap cw r1"
        "\<forall>b. bounded cw b nl \<longrightarrow> bounded_below_root cw b r1" by auto
      from rebalance_left_heap[OF cfg wo ih(1) h(2) h(4) bl ih(2) False reb]
      show ?thesis by auto
    qed
  next
    case greater
    with Node.prems(2) cfg obtain r1 c1 where
      r1: "upsert t nr k v w True False fn = Inr (r1, c1)"
      by (auto split: sum.splits)
    show ?thesis
    proof (cases "r1 = nil")
      case True
      with Node.prems(2) cfg greater r1 show ?thesis by auto
    next
      case False
      with Node.prems(2) cfg greater r1 have reb: "rebalance t (Node nw nk ni nl r1) = Inr res"
        by (auto simp: finish_def split: sum.splits)
      from Node.IH(2)[OF h(2) r1] have ih: "heap cw r1"
        "\<forall>b. bounded cw b nr \<longrightarrow> bounded_below_root cw b r1" by auto
      from rebalance_right_heap[OF cfg wo ih(1) h(1) h(3) br ih(2) False reb]
      show ?thesis by auto
    qed
  next
    case other
    with Node.prems(2) cfg show ?thesis by auto
  qed
qed

text \<open>
  Claim C3. Every tree reachable from the empty tree by \<open>Insert\<close> satisfies the heap
  invariant, \<open>compareWeights(c.Weight, n.Weight) >= 0\<close> for every child \<open>c\<close> of every
  node \<open>n\<close>: the one rotation per level of the unwinding recursion restores it. The
  weight comparator is an ordering (of two weights one does not outrank the other, and
  not outranking is transitive); the key comparator is arbitrary.
\<close>

theorem reachable_heap:
  assumes "configured t ck cw" and "weight_order cw" and "reachable t n"
  shows "heap cw n"
  using assms(3)
proof (induction rule: reachable.induct)
  case reachable_nil
  show ?case by simp
next
  case (reachable_Insert n k v w n' created)
  from upsert_heap[OF assms(1,2) reachable_Insert.IH, of k v w None n' created]
    reachable_Insert.hyps(2)
  show ?case by (simp add: Insert_def)
qed

theorem reachable_heap_witness:
  "weight_order cmpInt \<and>
   reachable exTreap (Node 2 3 (Some ''three'') nil (Node 7 5 (Some ''five'') nil nil)) \<and>
   heap cmpInt (Node 2 3 (Some ''three'') nil (Node 7 5 (Some ''five'') nil nil) :: (int, string) Node)"
proof -
  have c: "configured exTreap cmpInt cmpInt" by (simp add: exTreap_def)
  from reachable_heap[OF c cmpInt_weight ex_reachable] cmpInt_weight ex_reachable
  show ?thesis by simp
qed

section \<open>No nil node is dereferenced\<close>

lemma rotateRight_no_NilNode: "res \<noteq> nil \<Longrightarrow> rotateRight t res \<noteq> Inl NilNode"
  by (auto simp: rotateRight_def callCompareWeights_def split: Node.splits option.splits)

lemma rebalance_no_NilNode: "res \<noteq> nil \<Longrightarrow> rebalance t res \<noteq> Inl NilNode"
  using rotateRight_no_NilNode[of res t]
  by (auto simp: rebalance_def callCompareWeights_def split: Node.splits option.splits)

lemma finish_no_NilNode: "r \<noteq> Inl NilNode \<Longrightarrow> finish r c \<noteq> Inl NilNode"
  by (auto simp: finish_def split: sum.splits)

lemma upsert_no_NilNode: "upsert t n k v w create update fn \<noteq> Inl NilNode"
proof (induction n)
  case nil
  show ?case by simp
next
  case (Node nw nk ni nl nr)
  show ?case
  proof (cases "callCompareKeys t k nk")
    case (Inl e)
    then have "e \<noteq> NilNode"
      by (auto simp: callCompareKeys_def split: option.splits)
    with Inl show ?thesis by simp
  next
    case (Inr c)
    have fin: "\<And>m cr. m \<noteq> nil \<Longrightarrow> finish (rebalance t m) cr \<noteq> Inl NilNode"
      by (simp add: finish_no_NilNode rebalance_no_NilNode)
    consider (less) "c = -1" | (greater) "c \<noteq> -1" "c = 1" | (other) "c \<noteq> -1" "c \<noteq> 1"
      by blast
    then show ?thesis
    proof cases
      case less
      show ?thesis
      proof (cases "upsert t nl k v w create update fn")
        case (Inl e)
        with Node.IH(1) Inr less show ?thesis by simp
      next
        case (Inr p)
        obtain res cr where "p = (res, cr)" by (cases p)
        with Inr \<open>callCompareKeys t k nk = Inr c\<close> less fin[of "Node nw nk ni res nr" cr]
        show ?thesis by simp
      qed
    next
      case greater
      show ?thesis
      proof (cases "upsert t nr k v w create update fn")
        case (Inl e)
        with Node.IH(2) Inr greater show ?thesis by simp
      next
        case (Inr p)
        obtain res cr where "p = (res, cr)" by (cases p)
        with Inr \<open>callCompareKeys t k nk = Inr c\<close> greater fin[of "Node nw nk ni nl res" cr]
        show ?thesis by simp
      qed
    next
      case other
      with Inr fin[of "Node w nk (if create then v else ni) nl nr" False]
      show ?thesis by simp
    qed
  qed
qed

lemma upsert_total:
  assumes cfg: "configured t ck cw"
  shows "\<exists>res created. upsert t n k v w create update fn = Inr (res, created)"
proof (induction n)
  case nil
  show ?case by auto
next
  case (Node nw nk ni nl nr)
  have reb: "\<exists>m. finish (rebalance t (Node a b x l r)) c = Inr (m, c)" for a b x l r c
  proof -
    from rebalance_total[OF cfg, of "Node a b x l r"] obtain m where
      "rebalance t (Node a b x l r) = Inr m" by auto
    then show ?thesis by (simp add: finish_def)
  qed
  from Node obtain r1 c1 r2 c2 where
    sub: "upsert t nl k v w create update fn = Inr (r1, c1)"
         "upsert t nr k v w create update fn = Inr (r2, c2)" by blast
  consider (less) "ck k nk = -1" | (greater) "ck k nk \<noteq> -1" "ck k nk = 1"
    | (other) "ck k nk \<noteq> -1" "ck k nk \<noteq> 1" by blast
  then show ?case
  proof cases
    case less
    with cfg sub(1) reb[of nw nk ni r1 nr c1] show ?thesis by auto
  next
    case greater
    with cfg sub(2) reb[of nw nk ni nl r2 c2] show ?thesis by auto
  next
    case other
    with cfg reb[of w nk "if create then v else ni" nl nr False] show ?thesis by auto
  qed
qed

text \<open>
  Claim C9, as amended. Whatever the treap, the node, the key, the value, the weight, the flags and
  the predicate, \<open>upsert\<close> never dereferences a nil node: the rotations, which panic on
  a nil promoted child, are reached only behind the test that the child is there, and
  the rebuilt node tested is never nil. With a handle that holds both comparators no
  other nil is dereferenced either, and \<open>upsert\<close> returns.
\<close>

theorem upsert_no_nil_dereference:
  "upsert t n k v w create update fn \<noteq> Inl NilNode \<and>
   (configured t ck cw \<longrightarrow> (\<exists>res created. upsert t n k v w create update fn = Inr (res, created)))"
  using upsert_no_NilNode[of t n k v w create update fn]
    upsert_total[of t ck cw n k v w create update fn] by blast

theorem upsert_no_nil_dereference_witness:
  "configured exTreap cmpInt cmpInt \<and>
   upsert exTreap (Node 7 5 (Some ''five'') nil nil) 3 (Some ''three'') 2 True True None =
     Inr (Node 2 3 (Some ''three'') nil (Node 7 5 (Some ''five'') nil nil), True)"
proof -
  have c: "configured exTreap cmpInt cmpInt" by (simp add: exTreap_def)
  have "upsert exTreap (Node 7 5 (Some ''five'') nil nil) 3 (Some ''three'') 2 True True None =
     Inr (Node 2 3 (Some ''three'') nil (Node 7 5 (Some ''five'') nil nil), True)"
    by (simp add: exTreap_def cmpInt_def finish_def rebalance_def)
  with c upsert_no_nil_dereference[of exTreap "Node 7 5 (Some ''five'') nil nil" 3 "Some ''three''" 2
      True True None cmpInt cmpInt]
  show ?thesis by simp
qed

text \<open>
  Claim C9 as stated fails: other nil pointers are dereferenced during \<open>upsert\<close>. On
  a treap with no handle the comparison of the keys dereferences the nil handle; on a
  treap that \<open>NewTreap\<close> returned for a handle with no comparators it calls the nil
  key comparator; and with only the weight comparator missing, the test of the weights
  after the rebuild calls the nil weight comparator.
\<close>

theorem upsert_nil_handle_counterexample:
  "upsert (\<lparr>handle = None, root = nil\<rparr> :: (int, string) Treap)
     (Node 7 5 (Some ''five'') nil nil) 3 (Some ''three'') 2 True False None = Inl NilHandle \<and>
   NewTreap (Some emptyHandle) = Inr (\<lparr>handle = Some emptyHandle, root = nil\<rparr> :: (int, string) Treap) \<and>
   upsert (\<lparr>handle = Some emptyHandle, root = nil\<rparr> :: (int, string) Treap)
     (Node 7 5 (Some ''five'') nil nil) 3 (Some ''three'') 2 True False None = Inl NilComparator \<and>
   NewTreap (Some \<lparr>CompareWeights = None, CompareKeys = Some cmpInt\<rparr>) =
     Inr (\<lparr>handle = Some \<lparr>CompareWeights = None, CompareKeys = Some cmpInt\<rparr>, root = nil\<rparr>
          :: (int, string) Treap) \<and>
   upsert (\<lparr>handle = Some \<lparr>CompareWeights = None, CompareKeys = Some cmpInt\<rparr>, root = nil\<rparr>
          :: (int, string) Treap)
     (Node 7 5 (Some ''five'') nil nil) 3 (Some ''three'') 2 True False None = Inl NilComparator"
  by (simp add: NewTreap_def emptyHandle_def callCompareKeys_def callCompareWeights_def
      cmpInt_def finish_def rebalance_def)

section \<open>Minimum and maximum\<close>

lemma entries_empty: "(entries n = []) = (n = nil)"
  by (cases n) auto

lemma MinFrom_first: "MinFrom n = (case entries n of [] \<Rightarrow> None | e # es \<Rightarrow> snd e)"
proof (induction n)
  case nil
  show ?case by simp
next
  case (Node w k i l r)
  show ?case
  proof (cases "l = nil")
    case True
    then show ?thesis by simp
  next
    case False
    then have "entries l \<noteq> []" by (simp add: entries_empty)
    then obtain e es where "entries l = e # es" by (cases "entries l") auto
    with False Node.IH(1) show ?thesis by simp
  qed
qed

lemma MaxFrom_last: "MaxFrom n = (if entries n = [] then None else snd (last (entries n)))"
proof (induction n)
  case nil
  show ?case by simp
next
  case (Node w k i l r)
  show ?case
  proof (cases "r = nil")
    case True
    then show ?thesis by simp
  next
    case False
    then have "entries r \<noteq> []" by (simp add: entries_empty)
    with False Node.IH(2) show ?thesis by simp
  qed
qed

lemma Insert_bst_absent:
  assumes cfg: "configured t ck cw" and sto: "strict_total_order ck"
    and b: "bst ck n" and absent: "k \<notin> keys n"
  shows "\<exists>n'. Insert t n k v w = Inr (n', True) \<and> bst ck n' \<and>
    set (entries n') = insert (k, v) (set (entries n))"
proof -
  from upsert_absent[OF cfg sto b absent, of v w None] obtain n' where
    n': "Insert t n k v w = Inr (n', True)" "entries n' = ins ck k v (entries n)"
    by (auto simp: Insert_def)
  have "sorted_wrt (\<lambda>a b. ck a b < 0) (map fst (entries n))"
    using bst_sorted[OF sto, of n] b by (simp add: inorder_def)
  then have "bst ck n'"
    using sorted_ins[OF sto, of "entries n" k v] absent n'(2) bst_sorted[OF sto, of n']
    by (simp add: inorder_def set_entries)
  with n' show ?thesis by (simp add: set_ins)
qed

lemma build_entries:
  assumes cfg: "configured t ck cw" and sto: "strict_total_order ck"
  shows "bst ck n \<Longrightarrow> distinct (map fst ops) \<Longrightarrow> fst ` set ops \<inter> keys n = {} \<Longrightarrow>
    \<exists>n'. build t n ops = Inr n' \<and> bst ck n' \<and>
      set (entries n') = set (entries n) \<union> (\<lambda>(k, v, w). (k, v)) ` set ops"
proof (induction ops arbitrary: n)
  case Nil
  then show ?case by simp
next
  case (Cons op ops)
  obtain k v w where op: "op = (k, v, w)" by (cases op)
  from Cons.prems op have absent: "k \<notin> keys n" by auto
  from Insert_bst_absent[OF cfg sto Cons.prems(1) absent, of v w] obtain n1 where
    n1: "Insert t n k v w = Inr (n1, True)" "bst ck n1"
        "set (entries n1) = insert (k, v) (set (entries n))" by blast
  have "keys n1 = insert k (keys n)"
    using n1(3) set_entries[of n1] set_entries[of n] by auto
  with Cons.prems op have "fst ` set ops \<inter> keys n1 = {}" by auto
  moreover from Cons.prems have "distinct (map fst ops)" by simp
  ultimately obtain n' where
    "build t n1 ops = Inr n'" "bst ck n'"
    "set (entries n') = set (entries n1) \<union> (\<lambda>(k, v, w). (k, v)) ` set ops"
    using Cons.IH[OF n1(2)] by blast
  with n1 op show ?case by auto
qed

lemma cmpInt_less: "(cmpInt a b < 0) = (a < b)"
  by (simp add: cmpInt_def)

lemma sorted_first:
  assumes "sorted_wrt (<) (map fst es)" and "(k, v) \<in> set es"
    and "\<forall>e \<in> set es. (k :: int) \<le> fst e"
  shows "(case es of [] \<Rightarrow> None | e # r \<Rightarrow> snd e) = (v :: 'a option)"
proof (cases es)
  case Nil
  with assms(2) show ?thesis by simp
next
  case (Cons e r)
  have "e = (k, v)"
  proof (rule ccontr)
    assume "e \<noteq> (k, v)"
    with assms(2) Cons have "(k, v) \<in> set r" by auto
    with assms(1) Cons have "fst e < k" by auto
    moreover from assms(3) Cons have "k \<le> fst e" by simp
    ultimately show False by simp
  qed
  with Cons show ?thesis by simp
qed

lemma sorted_last:
  assumes "sorted_wrt (<) (map fst es)" and "(k, v) \<in> set es"
    and "\<forall>e \<in> set es. fst e \<le> (k :: int)"
  shows "(if es = [] then None else snd (last es)) = (v :: 'a option)"
proof (cases es rule: rev_cases)
  case Nil
  with assms(2) show ?thesis by simp
next
  case (snoc r e)
  have "e = (k, v)"
  proof (rule ccontr)
    assume "e \<noteq> (k, v)"
    with assms(2) snoc have "(k, v) \<in> set r" by auto
    with assms(1) snoc have "k < fst e" by (auto simp: sorted_wrt_append)
    moreover from assms(3) snoc have "fst e \<le> k" by simp
    ultimately show False by simp
  qed
  with snoc show ?thesis by simp
qed

lemma build_Min_Max:
  assumes cfg: "configured t cmpInt cw" and d: "distinct (map fst ops)"
    and lo: "(kmin, vmin, wmin) \<in> set ops" "\<forall>op \<in> set ops. kmin \<le> fst op"
    and hi: "(kmax, vmax, wmax) \<in> set ops" "\<forall>op \<in> set ops. fst op \<le> kmax"
  shows "\<exists>n. build t nil ops = Inr n \<and> MinFrom n = vmin \<and> MaxFrom n = vmax"
proof -
  from build_entries[OF cfg cmpInt_order, of nil ops] d obtain n where
    n: "build t nil ops = Inr n" "bst cmpInt n"
       "set (entries n) = (\<lambda>(k, v, w). (k, v)) ` set ops" by auto
  have s: "sorted_wrt (<) (map fst (entries n))"
    using bst_sorted[OF cmpInt_order, of n] n(2) by (simp add: inorder_def cmpInt_less)
  have "(kmin, vmin) \<in> set (entries n)" using n(3) lo(1) by force
  moreover have "\<forall>e \<in> set (entries n). kmin \<le> fst e" using n(3) lo(2) by force
  ultimately have "MinFrom n = vmin"
    using sorted_first[OF s] by (simp add: MinFrom_first)
  moreover have "(kmax, vmax) \<in> set (entries n)" using n(3) hi(1) by force
  moreover have "\<forall>e \<in> set (entries n). fst e \<le> kmax" using n(3) hi(2) by force
  ultimately have "MinFrom n = vmin \<and> MaxFrom n = vmax"
    using sorted_last[OF s] by (simp add: MaxFrom_last)
  with n(1) show ?thesis by blast
qed

text \<open>
  Claim C5. On an empty tree \<open>Min\<close> and \<open>Max\<close> return the absent value. On any
  tree \<open>Min\<close> returns the item of the node that ends the chain of left children, which
  is the first node in order, and \<open>Max\<close> the item of the node that ends the chain of
  right children, the last in order. On a tree built by inserting the keys 5, 3, 8, 1,
  each once, in any order, with any weights and any weight comparator, \<open>Min\<close> returns
  the item inserted for key 1 and \<open>Max\<close> the item inserted for key 8.
\<close>

theorem Min_Max_leftmost_rightmost:
  "Min (t\<lparr>root := nil\<rparr>) = None \<and> Max (t\<lparr>root := nil\<rparr>) = None \<and>
   Min t = (case entries (root t) of [] \<Rightarrow> None | e # es \<Rightarrow> snd e) \<and>
   Max t = (if entries (root t) = [] then None else snd (last (entries (root t)))) \<and>
   (configured t cmpInt cw \<longrightarrow> distinct (map fst ops) \<longrightarrow> fst ` set ops = {5, 3, 8, 1} \<longrightarrow>
    (1, v1, w1) \<in> set ops \<longrightarrow> (8, v8, w8) \<in> set ops \<longrightarrow>
    (\<exists>n. build t nil ops = Inr n \<and>
         Min (t\<lparr>root := n\<rparr>) = v1 \<and> Max (t\<lparr>root := n\<rparr>) = v8))"
proof -
  have "\<exists>n. build t nil ops = Inr n \<and> MinFrom n = v1 \<and> MaxFrom n = v8"
    if cfg: "configured t cmpInt cw" and d: "distinct (map fst ops)"
      and ks: "fst ` set ops = {5, 3, 8, 1}"
      and lo: "(1, v1, w1) \<in> set ops" and hi: "(8, v8, w8) \<in> set ops"
  proof -
    have "\<forall>op \<in> set ops. fst op \<in> {5, 3, 8, 1}" using ks by blast
    then have "\<forall>op \<in> set ops. 1 \<le> fst op" "\<forall>op \<in> set ops. fst op \<le> 8" by auto
    with build_Min_Max[OF cfg d lo _ hi] show ?thesis by blast
  qed
  then show ?thesis
    by (simp add: Min_def Max_def MinFrom_first MaxFrom_last)
qed


theorem Min_Max_leftmost_rightmost_witness:
  "build exTreap nil [(5, Some ''five'', 10), (3, Some ''three'', 20), (8, Some ''eight'', 5),
      (1, Some ''one'', 7)] =
     Inr (Node 5 8 (Some ''eight'')
           (Node 7 1 (Some ''one'') nil
             (Node 10 5 (Some ''five'') (Node 20 3 (Some ''three'') nil nil) nil))
           nil) \<and>
   Min (exTreap\<lparr>root := Node 5 8 (Some ''eight'')
           (Node 7 1 (Some ''one'') nil
             (Node 10 5 (Some ''five'') (Node 20 3 (Some ''three'') nil nil) nil))
           nil\<rparr>) = Some ''one'' \<and>
   Max (exTreap\<lparr>root := Node 5 8 (Some ''eight'')
           (Node 7 1 (Some ''one'') nil
             (Node 10 5 (Some ''five'') (Node 20 3 (Some ''three'') nil nil) nil))
           nil\<rparr>) = Some ''eight''"
proof -
  let ?ops = "[(5, Some ''five'', 10), (3, Some ''three'', 20), (8, Some ''eight'', 5),
      (1, Some ''one'', 7)] :: (int \<times> string option \<times> int) list"
  have c: "configured exTreap cmpInt cmpInt" by (simp add: exTreap_def)
  have d: "distinct (map fst ?ops)" by simp
  have k: "fst ` set ?ops = {5, 3, 8, 1}" by simp
  have lo: "(1, Some ''one'', 7) \<in> set ?ops" by simp
  have hi: "(8, Some ''eight'', 5) \<in> set ?ops" by simp
  have b: "build exTreap nil ?ops =
     Inr (Node 5 8 (Some ''eight'')
           (Node 7 1 (Some ''one'') nil
             (Node 10 5 (Some ''five'') (Node 20 3 (Some ''three'') nil nil) nil))
           nil)"
    by (simp add: Insert_def exTreap_def cmpInt_def finish_def rebalance_def rotateRight_def)
  from Min_Max_leftmost_rightmost[of exTreap cmpInt ?ops "Some ''one''" 7 "Some ''eight''" 5]
    c d k lo hi b
  show ?thesis by simp
qed

text \<open>
  Claim C6 against the code: \<open>NewTreap\<close> tests the handle pointer only. For a handle
  with neither comparator set it returns a treap and no error, and the first comparison
  on that treap panics; the error message it has for a nil handle is
  \<^verbatim>\<open>comparator is nil\<close>.
\<close>

theorem NewTreap_accepts_missing_comparators:
  "NewTreap (Some emptyHandle) = Inr (\<lparr>handle = Some emptyHandle, root = nil\<rparr> :: (int, string) Treap) \<and>
   Insert (\<lparr>handle = Some emptyHandle, root = nil\<rparr> :: (int, string) Treap)
     (Node 7 5 (Some ''five'') nil nil) 3 (Some ''three'') 2 = Inl NilComparator \<and>
   (NewTreap None :: error + (int, string) Treap) = Inl (ErrorString ''comparator is nil'')"
  by (simp add: NewTreap_def emptyHandle_def Insert_def callCompareKeys_def)

section \<open>The store refines the trees\<close>

lemma andThen_simps [simp]:
  "andThen None f = None"
  "andThen (Some (Inl e)) f = Some (Inl e)"
  "andThen (Some (Inr x)) f = f x"
  by (simp_all add: andThen_def)

lemma deref_None [simp]: "deref s None = Some (Inl NilNode)"
  by (simp add: deref_def)

lemma deref_Some [simp]: "a < length s \<Longrightarrow> deref s (Some a) = Some (Inr (s ! a))"
  by (simp add: deref_def)

lemma repr_append: "repr s p tr \<Longrightarrow> repr (s @ new) p tr"
  by (induction tr arbitrary: p) (auto simp: nth_append split: option.splits)

lemma repr_NodeE:
  assumes "repr s p (Node w k i l r)"
  obtains a where "p = Some a" "a < length s" "cellWeight (s ! a) = w" "cellKey (s ! a) = k"
    "cellItem (s ! a) = i" "repr s (cellLeft (s ! a)) l" "repr s (cellRight (s ! a)) r"
  using assms by (auto split: option.splits)

lemma repr_nil_iff: "repr s p tr \<Longrightarrow> (p = None) = (tr = nil)"
  by (cases tr) (auto split: option.splits)

lemma leftRotation_s_eq:
  assumes "a < length s" "cellLeft (s ! a) = Some b" "b < length s"
  shows "leftRotation_s s (Some a) =
    Some (Inr (s @ [\<lparr>cellWeight = cellWeight (s ! a), cellKey = cellKey (s ! a),
                     cellItem = cellItem (s ! a), cellLeft = cellRight (s ! b),
                     cellRight = cellRight (s ! a)\<rparr>,
                    \<lparr>cellWeight = cellWeight (s ! b), cellKey = cellKey (s ! b),
                     cellItem = cellItem (s ! b), cellLeft = cellLeft (s ! b),
                     cellRight = Some (length s)\<rparr>],
               Some (Suc (length s))))"
  using assms by (simp add: leftRotation_s_def alloc_def)

lemma rightRotation_s_eq:
  assumes "a < length s" "cellRight (s ! a) = Some b" "b < length s"
  shows "rightRotation_s s (Some a) =
    Some (Inr (s @ [\<lparr>cellWeight = cellWeight (s ! a), cellKey = cellKey (s ! a),
                     cellItem = cellItem (s ! a), cellLeft = cellLeft (s ! a),
                     cellRight = cellLeft (s ! b)\<rparr>,
                    \<lparr>cellWeight = cellWeight (s ! b), cellKey = cellKey (s ! b),
                     cellItem = cellItem (s ! b), cellLeft = Some (length s),
                     cellRight = cellRight (s ! b)\<rparr>],
               Some (Suc (length s))))"
  using assms by (simp add: rightRotation_s_def alloc_def)

lemma repr_leftRotation:
  assumes "repr s (Some a) (Node w k i (Node lw lk li ll lr) r)" "cellLeft (s ! a) = Some b"
  shows "repr (s @ [\<lparr>cellWeight = cellWeight (s ! a), cellKey = cellKey (s ! a),
                     cellItem = cellItem (s ! a), cellLeft = cellRight (s ! b),
                     cellRight = cellRight (s ! a)\<rparr>,
                    \<lparr>cellWeight = cellWeight (s ! b), cellKey = cellKey (s ! b),
                     cellItem = cellItem (s ! b), cellLeft = cellLeft (s ! b),
                     cellRight = Some (length s)\<rparr>])
              (Some (Suc (length s))) (Node lw lk li ll (Node w k i lr r))"
  using assms by (auto simp: nth_append repr_append)

lemma repr_rightRotation:
  assumes "repr s (Some a) (Node w k i l (Node rw rk ri rl rr))" "cellRight (s ! a) = Some b"
  shows "repr (s @ [\<lparr>cellWeight = cellWeight (s ! a), cellKey = cellKey (s ! a),
                     cellItem = cellItem (s ! a), cellLeft = cellLeft (s ! a),
                     cellRight = cellLeft (s ! b)\<rparr>,
                    \<lparr>cellWeight = cellWeight (s ! b), cellKey = cellKey (s ! b),
                     cellItem = cellItem (s ! b), cellLeft = Some (length s),
                     cellRight = cellRight (s ! b)\<rparr>])
              (Some (Suc (length s))) (Node rw rk ri (Node w k i l rl) rr)"
  using assms by (auto simp: nth_append repr_append)

lemma rotateRight_s_refines:
  assumes cfg: "configured t ck cw" and rp: "repr s p M" and rot: "rotateRight t M = Inr m"
  shows "\<exists>new p'. rotateRight_s t s p = Some (Inr (s @ new, p')) \<and> repr (s @ new) p' m"
proof (cases M)
  case nil
  with rot show ?thesis by (simp add: rotateRight_def)
next
  case (Node w k i l r)
  with rp obtain a where a: "p = Some a" "a < length s" "cellWeight (s ! a) = w"
    "repr s (cellRight (s ! a)) r"
    by (auto split: option.splits)
  show ?thesis
  proof (cases r)
    case nil
    with a have "cellRight (s ! a) = None" by simp
    moreover from nil Node rot have "m = M" by (simp add: rotateRight_def)
    ultimately have "rotateRight_s t s p = Some (Inr (s @ [], p)) \<and> repr (s @ []) p m"
      using a rp by (simp add: rotateRight_s_def)
    then show ?thesis by blast
  next
    case (Node rw rk ri rl rr)
    with a(4) obtain b where b: "cellRight (s ! a) = Some b" "b < length s"
      "cellWeight (s ! b) = rw"
      by (auto split: option.splits)
    show ?thesis
    proof (cases "cw rw w < 0")
      case True
      with rot cfg \<open>M = Node w k i l r\<close> Node have m: "m = Node rw rk ri (Node w k i l rl) rr"
        by (simp add: rotateRight_def)
      from rp a(1) \<open>M = Node w k i l r\<close> Node
      have "repr s (Some a) (Node w k i l (Node rw rk ri rl rr))" by simp
      from repr_rightRotation[OF this b(1)] rightRotation_s_eq[OF a(2) b(1) b(2)] True cfg a b m
      show ?thesis by (auto simp: rotateRight_s_def)
    next
      case False
      with rot cfg \<open>M = Node w k i l r\<close> Node have "m = M" by (simp add: rotateRight_def)
      with False cfg a b rp
      have "rotateRight_s t s p = Some (Inr (s @ [], p)) \<and> repr (s @ []) p m"
        by (simp add: rotateRight_s_def)
      then show ?thesis by blast
    qed
  qed
qed

lemma rebalance_s_refines:
  assumes cfg: "configured t ck cw" and rp: "repr s p M" and reb: "rebalance t M = Inr m"
  shows "\<exists>new p'. rebalance_s t s p = Some (Inr (s @ new, p')) \<and> repr (s @ new) p' m"
proof (cases M)
  case nil
  with reb show ?thesis by (simp add: rebalance_def)
next
  case (Node w k i l r)
  with rp obtain a where a: "p = Some a" "a < length s" "cellWeight (s ! a) = w"
    "repr s (cellLeft (s ! a)) l"
    by (auto split: option.splits)
  show ?thesis
  proof (cases l)
    case nil
    with a have "cellLeft (s ! a) = None" by simp
    moreover from nil Node reb have "rotateRight t M = Inr m" by (simp add: rebalance_def)
    ultimately show ?thesis
      using rotateRight_s_refines[OF cfg rp] a by (simp add: rebalance_s_def)
  next
    case (Node lw lk li ll lr)
    with a(4) obtain b where b: "cellLeft (s ! a) = Some b" "b < length s"
      "cellWeight (s ! b) = lw"
      by (auto split: option.splits)
    show ?thesis
    proof (cases "cw lw w < 0")
      case True
      with reb cfg \<open>M = Node w k i l r\<close> Node have m: "m = Node lw lk li ll (Node w k i lr r)"
        by (simp add: rebalance_def)
      from rp a(1) \<open>M = Node w k i l r\<close> Node
      have "repr s (Some a) (Node w k i (Node lw lk li ll lr) r)" by simp
      from repr_leftRotation[OF this b(1)] leftRotation_s_eq[OF a(2) b(1) b(2)] True cfg a b m
      show ?thesis by (auto simp: rebalance_s_def)
    next
      case False
      with reb cfg \<open>M = Node w k i l r\<close> Node have "rotateRight t M = Inr m"
        by (simp add: rebalance_def)
      with False cfg a b rotateRight_s_refines[OF cfg rp]
      show ?thesis by (simp add: rebalance_s_def)
    qed
  qed
qed


lemma finish_s_Inr [simp]: "finish_s (Some (Inr (s, p))) c = Some (Inr (s, p, c))"
  by (simp add: finish_s_def)

lemma upsert_s_refines:
  assumes cfg: "configured t ck cw"
  shows "repr s n tr \<Longrightarrow> upsert t tr k v w create update None = Inr (tr', c) \<Longrightarrow>
    \<exists>new p'. upsert_s t s n k v w create update None = Some (Inr (s @ new, p', c)) \<and>
      repr (s @ new) p' tr'"
proof (induction tr arbitrary: s n tr' c)
  case nil
  then have n: "n = None" by simp
  show ?case
  proof (cases create)
    case True
    with nil.prems(2) have "tr' = Node w k v nil nil" "c" by auto
    moreover have "upsert_s t s n k v w create update None =
      Some (Inr (s @ [\<lparr>cellWeight = w, cellKey = k, cellItem = v, cellLeft = None,
                       cellRight = None\<rparr>], Some (length s), True))"
      using n True by (subst upsert_s.simps) (simp add: alloc_def)
    ultimately show ?thesis by auto
  next
    case False
    with nil.prems(2) have "tr' = nil" "\<not> c" by auto
    moreover have "upsert_s t s n k v w create update None = Some (Inr (s @ [], None, False))"
      using n False by (subst upsert_s.simps) simp
    ultimately show ?thesis by simp
  qed
next
  case (Node nw nk ni nl nr)
  from Node.prems(1) obtain a where a: "n = Some a" "a < length s" "cellWeight (s ! a) = nw"
    "cellKey (s ! a) = nk" "cellItem (s ! a) = ni" "repr s (cellLeft (s ! a)) nl"
    "repr s (cellRight (s ! a)) nr"
    by (auto split: option.splits)
  have ckk: "callCompareKeys t k nk = Inr (ck k nk)" using cfg by simp
  consider (less) "ck k nk = -1" | (greater) "ck k nk \<noteq> -1" "ck k nk = 1"
    | (other) "ck k nk \<noteq> -1" "ck k nk \<noteq> 1" by blast
  then show ?case
  proof cases
    case less
    with Node.prems(2) ckk obtain r1 c1 where
      r1: "upsert t nl k v w create update None = Inr (r1, c1)"
      by (auto split: sum.splits)
    from Node.IH(1)[OF a(6) r1] obtain new1 p1 where
      s1: "upsert_s t s (cellLeft (s ! a)) k v w create update None = Some (Inr (s @ new1, p1, c1))"
          "repr (s @ new1) p1 r1" by blast
    show ?thesis
    proof (cases "r1 = nil")
      case True
      with Node.prems(2) ckk less r1 have "tr' = nil" "c = c1" by auto
      moreover from True s1(2) have "p1 = None" by simp
      moreover have "upsert_s t s n k v w create update None = Some (Inr (s @ new1, None, c1))"
        using a ckk less s1(1) \<open>p1 = None\<close> by (subst upsert_s.simps) simp
      ultimately show ?thesis by simp
    next
      case False
      with Node.prems(2) ckk less r1 have reb: "rebalance t (Node nw nk ni r1 nr) = Inr tr'"
        and c: "c = c1"
        by (auto simp: finish_def split: sum.splits)
      from False s1(2) have p1: "p1 \<noteq> None" using repr_nil_iff by blast
      let ?cell = "\<lparr>cellWeight = nw, cellKey = nk, cellItem = ni, cellLeft = p1,
                     cellRight = cellRight (s ! a)\<rparr>"
      let ?s2 = "s @ new1 @ [?cell]"
      have "repr ?s2 (Some (length (s @ new1))) (Node nw nk ni r1 nr)"
        using repr_append[OF s1(2), of "[?cell]"] repr_append[OF a(7), of "new1 @ [?cell]"]
        by (simp add: nth_append)
      from rebalance_s_refines[OF cfg this reb] obtain new2 p2 where
        r2: "rebalance_s t ?s2 (Some (length (s @ new1))) = Some (Inr (?s2 @ new2, p2))"
            "repr (?s2 @ new2) p2 tr'" by blast
      have "upsert_s t s n k v w create update None = Some (Inr (?s2 @ new2, p2, c1))"
        using a ckk less s1(1) p1 r2(1)
        by (subst upsert_s.simps) (simp add: alloc_def nth_append)
      with r2(2) c show ?thesis
        by (intro exI[of _ "new1 @ [?cell] @ new2"] exI[of _ p2]) simp
    qed
  next
    case greater
    with Node.prems(2) ckk obtain r1 c1 where
      r1: "upsert t nr k v w create update None = Inr (r1, c1)"
      by (auto split: sum.splits)
    from Node.IH(2)[OF a(7) r1] obtain new1 p1 where
      s1: "upsert_s t s (cellRight (s ! a)) k v w create update None = Some (Inr (s @ new1, p1, c1))"
          "repr (s @ new1) p1 r1" by blast
    show ?thesis
    proof (cases "r1 = nil")
      case True
      with Node.prems(2) ckk greater r1 have "tr' = nil" "c = c1" by auto
      moreover from True s1(2) have "p1 = None" by simp
      moreover have "upsert_s t s n k v w create update None = Some (Inr (s @ new1, None, c1))"
        using a ckk greater s1(1) \<open>p1 = None\<close> by (subst upsert_s.simps) simp
      ultimately show ?thesis by simp
    next
      case False
      with Node.prems(2) ckk greater r1 have reb: "rebalance t (Node nw nk ni nl r1) = Inr tr'"
        and c: "c = c1"
        by (auto simp: finish_def split: sum.splits)
      from False s1(2) have p1: "p1 \<noteq> None" using repr_nil_iff by blast
      let ?cell = "\<lparr>cellWeight = nw, cellKey = nk, cellItem = ni, cellLeft = cellLeft (s ! a),
                     cellRight = p1\<rparr>"
      let ?s2 = "s @ new1 @ [?cell]"
      have "repr ?s2 (Some (length (s @ new1))) (Node nw nk ni nl r1)"
        using repr_append[OF s1(2), of "[?cell]"] repr_append[OF a(6), of "new1 @ [?cell]"]
        by (simp add: nth_append)
      from rebalance_s_refines[OF cfg this reb] obtain new2 p2 where
        r2: "rebalance_s t ?s2 (Some (length (s @ new1))) = Some (Inr (?s2 @ new2, p2))"
            "repr (?s2 @ new2) p2 tr'" by blast
      have "upsert_s t s n k v w create update None = Some (Inr (?s2 @ new2, p2, c1))"
        using a ckk greater s1(1) p1 r2(1)
        by (subst upsert_s.simps) (simp add: alloc_def nth_append)
      with r2(2) c show ?thesis
        by (intro exI[of _ "new1 @ [?cell] @ new2"] exI[of _ p2]) simp
    qed
  next
    case other
    show ?thesis
    proof (cases update)
      case False
      with Node.prems(2) ckk other have "tr' = nil" "\<not> c" by auto
      moreover have "upsert_s t s n k v w create update None = Some (Inr (s @ [], None, False))"
        using a ckk other False by (subst upsert_s.simps) simp
      ultimately show ?thesis by simp
    next
      case True
      let ?i = "if create then v else ni"
      from Node.prems(2) ckk other True
      have reb: "rebalance t (Node w nk ?i nl nr) = Inr tr'" and c: "\<not> c"
        by (auto simp: finish_def split: sum.splits)
      let ?cell = "\<lparr>cellWeight = w, cellKey = nk, cellItem = ?i, cellLeft = cellLeft (s ! a),
                     cellRight = cellRight (s ! a)\<rparr>"
      let ?s2 = "s @ [?cell]"
      have "repr ?s2 (Some (length s)) (Node w nk ?i nl nr)"
        using repr_append[OF a(6), of "[?cell]"] repr_append[OF a(7), of "[?cell]"]
        by (simp add: nth_append)
      from rebalance_s_refines[OF cfg this reb] obtain new2 p2 where
        r2: "rebalance_s t ?s2 (Some (length s)) = Some (Inr (?s2 @ new2, p2))"
            "repr (?s2 @ new2) p2 tr'" by blast
      have "upsert_s t s n k v w create update None = Some (Inr (?s2 @ new2, p2, False))"
        using a ckk other True r2(1)
        by (subst upsert_s.simps) (cases create; simp add: alloc_def setItem_def)
      with r2(2) c show ?thesis
        by (intro exI[of _ "[?cell] @ new2"] exI[of _ p2]) simp
    qed
  qed
qed

lemma GetNode_s_refines:
  "repr s n tr \<Longrightarrow>
    (case GetNode t tr key of
       Inl e \<Rightarrow> GetNode_s t s n key = Some (Inl e)
     | Inr (m, found) \<Rightarrow> \<exists>p. GetNode_s t s n key = Some (Inr (p, found)) \<and> repr s p m)"
proof (induction tr arbitrary: n)
  case nil
  then show ?case by (subst GetNode_s.simps) simp
next
  case (Node nw nk ni nl nr)
  from Node.prems obtain a where a: "n = Some a" "a < length s" "cellKey (s ! a) = nk"
    "repr s (cellLeft (s ! a)) nl" "repr s (cellRight (s ! a)) nr"
    by (auto split: option.splits)
  show ?case
  proof (cases "callCompareKeys t key nk")
    case (Inl e)
    then show ?thesis using a by (subst GetNode_s.simps) simp
  next
    case (Inr c3)
    consider (less) "c3 < 0" | (greater) "\<not> c3 < 0" "c3 > 0" | (same) "\<not> c3 < 0" "\<not> c3 > 0"
      by blast
    then show ?thesis
    proof cases
      case less
      have "GetNode_s t s n key = GetNode_s t s (cellLeft (s ! a)) key"
        using a Inr less by (subst GetNode_s.simps) simp
      with Node.IH(1)[OF a(4)] Inr less show ?thesis by (auto split: sum.splits)
    next
      case greater
      have "GetNode_s t s n key = GetNode_s t s (cellRight (s ! a)) key"
        using a Inr greater by (subst GetNode_s.simps) simp
      with Node.IH(2)[OF a(5)] Inr greater show ?thesis by (auto split: sum.splits)
    next
      case same
      have "GetNode_s t s n key = Some (Inr (n, True))"
        using a Inr same by (subst GetNode_s.simps) simp
      with Node.prems Inr same show ?thesis by simp
    qed
  qed
qed

lemma Get_s_refines: "repr s n tr \<Longrightarrow> Get_s t s n key = Some (Get t tr key)"
  using GetNode_s_refines[of s n tr t key]
  by (auto simp: Get_s_def Get_def split: sum.splits Node.splits option.splits)


text \<open>
  Claim C7. On a store in which \<open>n\<close> is the root of a tree, \<open>Insert\<close> returns, and
  the store it returns is the old store with new cells appended: no cell that was there
  is written. The old root is still the root of the same tree, and \<open>Get\<close> from the old
  root gives, for every key, the result it gave before the call.
\<close>

theorem Insert_keeps_original:
  assumes "configured t ck cw" and "repr s n tr"
  shows "\<exists>new newRoot created tr'.
    Insert_s t s n k v w = Some (Inr (s @ new, newRoot, created)) \<and>
    Insert t tr k v w = Inr (tr', created) \<and> repr (s @ new) newRoot tr' \<and>
    repr (s @ new) n tr \<and>
    (\<forall>key. Get_s t (s @ new) n key = Get_s t s n key \<and> Get_s t s n key = Some (Get t tr key))"
proof -
  from upsert_total[OF assms(1), of tr k v w True False None] obtain tr' created where
    p: "upsert t tr k v w True False None = Inr (tr', created)" by blast
  from upsert_s_refines[OF assms(1) assms(2) p] obtain new newRoot where
    q: "upsert_s t s n k v w True False None = Some (Inr (s @ new, newRoot, created))"
       "repr (s @ new) newRoot tr'" by blast
  have r: "repr (s @ new) n tr" using assms(2) by (rule repr_append)
  have "\<forall>key. Get_s t (s @ new) n key = Get_s t s n key \<and> Get_s t s n key = Some (Get t tr key)"
    using Get_s_refines[OF r] Get_s_refines[OF assms(2)] by simp
  with p q r show ?thesis unfolding Insert_s_def Insert_def by blast
qed

theorem Insert_keeps_original_witness:
  "configured exTreap cmpInt cmpInt \<and>
   repr exStore1 (Some 0) (Node 7 5 (Some ''five'') nil nil) \<and>
   Insert_s exTreap exStore1 (Some 0) 3 (Some ''three'') 2 =
     Some (Inr (exStore1 @
       [\<lparr>cellWeight = 2, cellKey = 3, cellItem = Some ''three'', cellLeft = None,
         cellRight = None\<rparr>,
        \<lparr>cellWeight = 7, cellKey = 5, cellItem = Some ''five'', cellLeft = Some 1,
         cellRight = None\<rparr>,
        \<lparr>cellWeight = 7, cellKey = 5, cellItem = Some ''five'', cellLeft = None,
         cellRight = None\<rparr>,
        \<lparr>cellWeight = 2, cellKey = 3, cellItem = Some ''three'', cellLeft = None,
         cellRight = Some 3\<rparr>], Some 4, True)) \<and>
   Get_s exTreap exStore1 (Some 0) 5 = Some (Inr (Some ''five'', True)) \<and>
   Get_s exTreap exStore1 (Some 0) 3 = Some (Inr (None, False))"
proof -
  have c: "configured exTreap cmpInt cmpInt" by (simp add: exTreap_def)
  have r: "repr exStore1 (Some 0) (Node 7 5 (Some ''five'') nil nil)"
    by (simp add: exStore1_def)
  have i: "Insert_s exTreap exStore1 (Some 0) 3 (Some ''three'') 2 =
     Some (Inr (exStore1 @
       [\<lparr>cellWeight = 2, cellKey = 3, cellItem = Some ''three'', cellLeft = None,
         cellRight = None\<rparr>,
        \<lparr>cellWeight = 7, cellKey = 5, cellItem = Some ''five'', cellLeft = Some 1,
         cellRight = None\<rparr>,
        \<lparr>cellWeight = 7, cellKey = 5, cellItem = Some ''five'', cellLeft = None,
         cellRight = None\<rparr>,
        \<lparr>cellWeight = 2, cellKey = 3, cellItem = Some ''three'', cellLeft = None,
         cellRight = Some 3\<rparr>], Some 4, True))"
    by (simp add: Insert_s_def upsert_s.simps exStore1_def exTreap_def cmpInt_def alloc_def
        rebalance_s_def leftRotation_s_def deref_def)
  have g: "Get exTreap (Node 7 5 (Some ''five'') nil nil) 5 = Inr (Some ''five'', True)"
    "Get exTreap (Node 7 5 (Some ''five'') nil nil) 3 = Inr (None, False)"
    by (simp_all add: Get_def exTreap_def cmpInt_def)
  from Insert_keeps_original[OF c r, of 3 "Some ''three''" 2] c r i g
  show ?thesis by auto
qed

text \<open>
  Claim C8. For a node at address \<open>a\<close> whose left child is at address \<open>b\<close>, the left
  rotation appends exactly two cells to the store and returns the address of the second.
  That new root carries the weight, key and item of the child and has the child's left
  pointer as its left pointer; its right pointer is the other new cell, which carries the
  fields of the node, the child's right pointer as left pointer and the node's right
  pointer as right pointer. All pointers to the old subtrees are copied as they are, and
  the in-order keys of the tree are the same after the rotation. The right rotation is
  the mirror image.
\<close>

theorem rotations_on_store:
  assumes "a < length s"
  shows
   "(cellLeft (s ! a) = Some b \<and> b < length s \<longrightarrow>
      leftRotation_s s (Some a) =
        Some (Inr (s @ [\<lparr>cellWeight = cellWeight (s ! a), cellKey = cellKey (s ! a),
                         cellItem = cellItem (s ! a), cellLeft = cellRight (s ! b),
                         cellRight = cellRight (s ! a)\<rparr>,
                        \<lparr>cellWeight = cellWeight (s ! b), cellKey = cellKey (s ! b),
                         cellItem = cellItem (s ! b), cellLeft = cellLeft (s ! b),
                         cellRight = Some (length s)\<rparr>],
                   Some (Suc (length s)))) \<and>
      (\<forall>tr. repr s (Some a) tr \<longrightarrow>
         (\<exists>s' p' tr'. leftRotation_s s (Some a) = Some (Inr (s', p')) \<and>
            leftRotation tr = Inr tr' \<and> repr s' p' tr' \<and> inorder tr' = inorder tr))) \<and>
    (cellRight (s ! a) = Some b \<and> b < length s \<longrightarrow>
      rightRotation_s s (Some a) =
        Some (Inr (s @ [\<lparr>cellWeight = cellWeight (s ! a), cellKey = cellKey (s ! a),
                         cellItem = cellItem (s ! a), cellLeft = cellLeft (s ! a),
                         cellRight = cellLeft (s ! b)\<rparr>,
                        \<lparr>cellWeight = cellWeight (s ! b), cellKey = cellKey (s ! b),
                         cellItem = cellItem (s ! b), cellLeft = Some (length s),
                         cellRight = cellRight (s ! b)\<rparr>],
                   Some (Suc (length s)))) \<and>
      (\<forall>tr. repr s (Some a) tr \<longrightarrow>
         (\<exists>s' p' tr'. rightRotation_s s (Some a) = Some (Inr (s', p')) \<and>
            rightRotation tr = Inr tr' \<and> repr s' p' tr' \<and> inorder tr' = inorder tr)))"
proof (intro conjI impI allI)
  assume l: "cellLeft (s ! a) = Some b \<and> b < length s"
  then show "leftRotation_s s (Some a) =
        Some (Inr (s @ [\<lparr>cellWeight = cellWeight (s ! a), cellKey = cellKey (s ! a),
                         cellItem = cellItem (s ! a), cellLeft = cellRight (s ! b),
                         cellRight = cellRight (s ! a)\<rparr>,
                        \<lparr>cellWeight = cellWeight (s ! b), cellKey = cellKey (s ! b),
                         cellItem = cellItem (s ! b), cellLeft = cellLeft (s ! b),
                         cellRight = Some (length s)\<rparr>],
                   Some (Suc (length s))))"
    using leftRotation_s_eq[OF assms] by simp
  fix tr assume r: "repr s (Some a) tr"
  from r obtain w k i l rt where tr: "tr = Node w k i l rt" by (cases tr) auto
  with r l have "l \<noteq> nil" by auto
  then obtain lw lk li ll lr where ln: "l = Node lw lk li ll lr" by (cases l) auto
  from repr_leftRotation[of s a w k i lw lk li ll lr rt b] r tr ln l
    leftRotation_s_eq[OF assms, of b]
  show "\<exists>s' p' tr'. leftRotation_s s (Some a) = Some (Inr (s', p')) \<and>
            leftRotation tr = Inr tr' \<and> repr s' p' tr' \<and> inorder tr' = inorder tr"
    by (simp add: inorder_def)
next
  assume l: "cellRight (s ! a) = Some b \<and> b < length s"
  then show "rightRotation_s s (Some a) =
        Some (Inr (s @ [\<lparr>cellWeight = cellWeight (s ! a), cellKey = cellKey (s ! a),
                         cellItem = cellItem (s ! a), cellLeft = cellLeft (s ! a),
                         cellRight = cellLeft (s ! b)\<rparr>,
                        \<lparr>cellWeight = cellWeight (s ! b), cellKey = cellKey (s ! b),
                         cellItem = cellItem (s ! b), cellLeft = Some (length s),
                         cellRight = cellRight (s ! b)\<rparr>],
                   Some (Suc (length s))))"
    using rightRotation_s_eq[OF assms] by simp
  fix tr assume r: "repr s (Some a) tr"
  from r obtain w k i lt rt where tr: "tr = Node w k i lt rt" by (cases tr) auto
  with r l have "rt \<noteq> nil" by auto
  then obtain rw rk ri rl rr where rn: "rt = Node rw rk ri rl rr" by (cases rt) auto
  from repr_rightRotation[of s a w k i lt rw rk ri rl rr b] r tr rn l
    rightRotation_s_eq[OF assms, of b]
  show "\<exists>s' p' tr'. rightRotation_s s (Some a) = Some (Inr (s', p')) \<and>
            rightRotation tr = Inr tr' \<and> repr s' p' tr' \<and> inorder tr' = inorder tr"
    by (simp add: inorder_def)
qed


theorem rotations_on_store_witness:
  "(1::nat) < length exStore2 \<and> cellLeft (exStore2 ! 1) = Some 0 \<and>
   leftRotation_s exStore2 (Some 1) =
     Some (Inr (exStore2 @
       [\<lparr>cellWeight = 7, cellKey = 5, cellItem = Some ''five'', cellLeft = None,
         cellRight = None\<rparr>,
        \<lparr>cellWeight = 2, cellKey = 3, cellItem = Some ''three'', cellLeft = None,
         cellRight = Some 2\<rparr>], Some 3)) \<and>
   (1::nat) < length exStore3 \<and> cellRight (exStore3 ! 1) = Some 0 \<and>
   rightRotation_s exStore3 (Some 1) =
     Some (Inr (exStore3 @
       [\<lparr>cellWeight = 7, cellKey = 5, cellItem = Some ''five'', cellLeft = None,
         cellRight = None\<rparr>,
        \<lparr>cellWeight = 2, cellKey = 8, cellItem = Some ''eight'', cellLeft = Some 2,
         cellRight = None\<rparr>], Some 3)) \<and>
   repr exStore2 (Some 1) (Node 7 5 (Some ''five'') (Node 2 3 (Some ''three'') nil nil) nil) \<and>
   leftRotation (Node 7 5 (Some ''five'') (Node 2 3 (Some ''three'') nil nil) nil) =
     Inr (Node 2 3 (Some ''three'') nil (Node 7 5 (Some ''five'') nil nil) :: (int, string) Node)"
proof -
  have a2: "(1::nat) < length exStore2" and a3: "(1::nat) < length exStore3"
    by (simp_all add: exStore2_def exStore3_def)
  have l: "cellLeft (exStore2 ! 1) = Some 0 \<and> 0 < length exStore2"
    by (simp add: exStore2_def)
  have r: "cellRight (exStore3 ! 1) = Some 0 \<and> 0 < length exStore3"
    by (simp add: exStore3_def)
  have rp: "repr exStore2 (Some 1) (Node 7 5 (Some ''five'') (Node 2 3 (Some ''three'') nil nil) nil)"
    by (simp add: exStore2_def)
  from rotations_on_store[OF a2, of 0] l
  have "leftRotation_s exStore2 (Some 1) =
     Some (Inr (exStore2 @
       [\<lparr>cellWeight = 7, cellKey = 5, cellItem = Some ''five'', cellLeft = None,
         cellRight = None\<rparr>,
        \<lparr>cellWeight = 2, cellKey = 3, cellItem = Some ''three'', cellLeft = None,
         cellRight = Some 2\<rparr>], Some 3))"
    by (simp add: exStore2_def)
  moreover from rotations_on_store[OF a3, of 0] r
  have "rightRotation_s exStore3 (Some 1) =
     Some (Inr (exStore3 @
       [\<lparr>cellWeight = 7, cellKey = 5, cellItem = Some ''five'', cellLeft = None,
         cellRight = None\<rparr>,
        \<lparr>cellWeight = 2, cellKey = 8, cellItem = Some ''eight'', cellLeft = Some 2,
         cellRight = None\<rparr>], Some 3))"
    by (simp add: exStore3_def)
  ultimately show ?thesis using a2 a3 l r rp by simp
qed

end
